theory Spec2Isabelle
  imports Main
begin

section \<open>Ship placement on the 10 x 10 board\<close>

text \<open>
  The game component keeps the fleet in the state variable \<open>shipPieces\<close>. A ship is
  the object \<open>{name, size, position, color, horizontal}\<close>; its \<open>position\<close> is the empty
  array while the ship is unplaced and the pair \<open>[row, col]\<close> of its top-left cell once it
  is placed. Rows, columns and sizes are integers. The functions of the component read
  \<open>shipPieces\<close> from their closure; here it is their first argument, and a function that
  updates the state returns the new fleet.
\<close>

record Ship =
  name :: string
  size_cells :: int
  position :: "(int \<times> int) option"
  color :: string
  horizontal :: bool

type_synonym fleet = "Ship list"

text \<open>The initial value of \<open>shipPieces\<close>: five unplaced, horizontal ships.\<close>

definition defaultShips :: fleet where
  "defaultShips =
     [\<lparr>name = ''Carrier'', size_cells = 5, position = None, color = ''#1E40AF'',
        horizontal = True\<rparr>,
      \<lparr>name = ''Battleship'', size_cells = 4, position = None, color = ''#3B82F6'',
        horizontal = True\<rparr>,
      \<lparr>name = ''Cruiser'', size_cells = 3, position = None, color = ''#60A5FA'',
        horizontal = True\<rparr>,
      \<lparr>name = ''Submarine'', size_cells = 3, position = None, color = ''#93C5FD'',
        horizontal = True\<rparr>,
      \<lparr>name = ''Destroyer'', size_cells = 2, position = None, color = ''#C0D6F0'',
        horizontal = True\<rparr>]"

subsection \<open>canPlaceShipAt\<close>

text \<open>
  The callback handed to \<open>shipPieces.some\<close>: does the placed ship \<open>ship\<close>, other
  than the one called \<open>nm\<close>, cover the cell \<open>(r, c)\<close>?
\<close>

definition covers :: "string \<Rightarrow> int \<Rightarrow> int \<Rightarrow> Ship \<Rightarrow> bool" where
  "covers nm r c ship =
     (case position ship of
        None \<Rightarrow> False
      | Some (p0, p1) \<Rightarrow>
          if name ship = nm then False
          else if horizontal ship
            then r = p0 \<and> c \<ge> p1 \<and> c < p1 + size_cells ship
            else c = p1 \<and> r \<ge> p0 \<and> r < p0 + size_cells ship)"

definition overlapping :: "fleet \<Rightarrow> string \<Rightarrow> int \<Rightarrow> int \<Rightarrow> bool" where
  "overlapping shipPieces nm r c = list_ex (covers nm r c) shipPieces"

text \<open>The \<open>for\<close> loop over \<open>i\<close>, leaving with \<open>false\<close> at the first covered cell.\<close>

function canPlaceShipAt_loop ::
  "fleet \<Rightarrow> string \<Rightarrow> int \<Rightarrow> int \<Rightarrow> int \<Rightarrow> bool \<Rightarrow> int \<Rightarrow> bool" where
  "canPlaceShipAt_loop shipPieces nm sz startRow startCol horiz i =
     (if i < sz then
        (let r = startRow + (if horiz then 0 else i);
             c = startCol + (if horiz then i else 0)
         in if overlapping shipPieces nm r c then False
            else canPlaceShipAt_loop shipPieces nm sz startRow startCol horiz (i + 1))
      else True)"
  by pat_completeness auto
termination
  by (relation "measure (\<lambda>(shipPieces, nm, sz, startRow, startCol, horiz, i). nat (sz - i))") auto

declare canPlaceShipAt_loop.simps [simp del]

definition canPlaceShipAt :: "fleet \<Rightarrow> string \<Rightarrow> int \<Rightarrow> int \<Rightarrow> int \<Rightarrow> bool \<Rightarrow> bool" where
  "canPlaceShipAt shipPieces nm sz startRow startCol horiz =
     (if startRow < 0 \<or> startRow \<ge> 10 \<or> startCol < 0 \<or> startCol \<ge> 10 then False
      else if horiz \<and> startCol + sz > 10 then False
      else if \<not> horiz \<and> startRow + sz > 10 then False
      else canPlaceShipAt_loop shipPieces nm sz startRow startCol horiz 0)"

subsection \<open>placeShip\<close>

text \<open>
  \<open>placeShip\<close> returns its boolean together with the fleet after the state update
  \<open>prev.map(s => s.name === name ? {...s, position: [startRow, startCol]} : s)\<close>.
\<close>

definition placeShip ::
  "fleet \<Rightarrow> string \<Rightarrow> int \<Rightarrow> int \<Rightarrow> int \<Rightarrow> bool \<Rightarrow> bool \<times> fleet" where
  "placeShip shipPieces nm sz startRow startCol horiz =
     (if \<not> canPlaceShipAt shipPieces nm sz startRow startCol horiz then (False, shipPieces)
      else (True, map (\<lambda>s. if name s = nm then s\<lparr>position := Some (startRow, startCol)\<rparr> else s)
                    shipPieces))"

subsection \<open>rotateShip\<close>

text \<open>
  An entry of the search queue is the array \<open>[row, col, offset]\<close>: a pivot cell and
  the offset of that pivot from the start of the ship in its new orientation.
\<close>

type_synonym state = "int \<times> int \<times> int"

definition neighbors :: "state \<Rightarrow> state list" where
  "neighbors s =
     (case s of (row, col, offset) \<Rightarrow>
        [(row - 1, col, offset), (row + 1, col, offset),
         (row, col - 1, offset), (row, col + 1, offset)])"

text \<open>
  The inner loop \<open>for (const [r, c, o] of neighbors)\<close>: a neighbour inside the board
  whose key is not in \<open>visited\<close> is pushed at the end of the queue and its key is added.
  The key \<open>`${r},${c},${o}`\<close> of three integers determines the triple, so the set of
  keys is modelled as a set of triples.
\<close>

fun enqueue :: "state list \<Rightarrow> state list \<times> state set \<Rightarrow> state list \<times> state set" where
  "enqueue [] (queue, visited) = (queue, visited)"
| "enqueue ((r, c, off) # ns) (queue, visited) =
     (if r \<ge> 0 \<and> r < 10 \<and> c \<ge> 0 \<and> c < 10 \<and> (r, c, off) \<notin> visited
      then enqueue ns (queue @ [(r, c, off)], insert (r, c, off) visited)
      else enqueue ns (queue, visited))"

text \<open>
  The measure of the \<open>while\<close> loop: the length of the queue plus the number of board
  states, over the offsets present in the queue, that are not yet in \<open>visited\<close>.
\<close>

definition offsets :: "state list \<Rightarrow> int set" where
  "offsets q = (\<lambda>s. snd (snd s)) ` set q"

definition board :: "int set \<Rightarrow> state set" where
  "board offs = {0..<10} \<times> {0..<10} \<times> offs"

definition pending :: "state list \<times> state set \<Rightarrow> nat" where
  "pending qv = length (fst qv) + card (board (offsets (fst qv)) - snd qv)"

lemma finite_board: "finite offs \<Longrightarrow> finite (board offs)"
  by (simp add: board_def)

lemma enqueue_balance:
  assumes "finite offs" "snd ` snd ` set ns \<subseteq> offs"
  shows "length (fst (enqueue ns qv)) + card (board offs - snd (enqueue ns qv))
         = length (fst qv) + card (board offs - snd qv)"
  using assms(2)
proof (induction ns qv rule: enqueue.induct)
  case (1 queue visited)
  then show ?case by simp
next
  case (2 r c off ns queue visited)
  have rest: "snd ` snd ` set ns \<subseteq> offs" using 2(3) by auto
  show ?case
  proof (cases "r \<ge> 0 \<and> r < 10 \<and> c \<ge> 0 \<and> c < 10 \<and> (r, c, off) \<notin> visited")
    case True
    have mem: "(r, c, off) \<in> board offs - visited"
      using True 2(3) by (auto simp: board_def)
    have fin: "finite (board offs - visited)" using assms(1) by (simp add: finite_board)
    have eq: "board offs - insert (r, c, off) visited = (board offs - visited) - {(r, c, off)}"
      by auto
    have "card (board offs - insert (r, c, off) visited) + 1 = card (board offs - visited)"
      unfolding eq using card_Suc_Diff1 [OF fin mem] by simp
    then show ?thesis using True 2(1) rest by simp
  next
    case False
    then show ?thesis using 2(2) rest by auto
  qed
qed

lemma enqueue_offsets:
  "offsets (fst (enqueue ns qv)) \<subseteq> offsets (fst qv) \<union> snd ` snd ` set ns"
  by (induction ns qv rule: enqueue.induct) (auto simp: offsets_def)

lemma neighbors_offsets: "snd ` snd ` set (neighbors (row, col, offset)) = {offset}"
  by (simp add: neighbors_def)

lemma pending_step:
  "pending (enqueue (neighbors (row, col, offset)) (queue, visited))
     < pending ((row, col, offset) # queue, visited)"
proof -
  let ?offs = "offsets ((row, col, offset) # queue)"
  let ?e = "enqueue (neighbors (row, col, offset)) (queue, visited)"
  have fin: "finite ?offs" by (simp add: offsets_def)
  have sub: "snd ` snd ` set (neighbors (row, col, offset)) \<subseteq> ?offs"
    by (simp add: neighbors_offsets offsets_def)
  have bal: "length (fst ?e) + card (board ?offs - snd ?e)
             = length queue + card (board ?offs - visited)"
    using enqueue_balance [OF fin sub, of "(queue, visited)"] by simp
  have "offsets (fst ?e) \<subseteq> ?offs"
    using enqueue_offsets [of "neighbors (row, col, offset)" "(queue, visited)"]
    by (auto simp: neighbors_offsets offsets_def)
  then have "board (offsets (fst ?e)) - snd ?e \<subseteq> board ?offs - snd ?e"
    by (auto simp: board_def)
  then have "card (board (offsets (fst ?e)) - snd ?e) \<le> card (board ?offs - snd ?e)"
    using fin by (intro card_mono) (simp_all add: finite_board)
  then show ?thesis using bal by (simp add: pending_def)
qed

text \<open>
  The \<open>while (queue.length > 0)\<close> loop. It returns \<open>Some (topRow, leftCol)\<close> when it
  leaves through the \<open>return\<close> after the state update, and \<open>None\<close> when the queue runs
  empty.
\<close>

function rotateShip_loop ::
  "fleet \<Rightarrow> Ship \<Rightarrow> state list \<Rightarrow> state set \<Rightarrow> (int \<times> int) option" where
  "rotateShip_loop shipPieces ship [] visited = None"
| "rotateShip_loop shipPieces ship ((row, col, offset) # queue) visited =
     (let topRow = row - (if horizontal ship then offset else 0);
          leftCol = col - (if horizontal ship then 0 else offset)
      in if canPlaceShipAt shipPieces (name ship) (size_cells ship) topRow leftCol
              (\<not> horizontal ship)
         then Some (topRow, leftCol)
         else (case enqueue (neighbors (row, col, offset)) (queue, visited) of
                 (queue', visited') \<Rightarrow> rotateShip_loop shipPieces ship queue' visited'))"
  by pat_completeness auto
termination
proof (relation "measure (\<lambda>(shipPieces, ship, queue, visited). pending (queue, visited))",
       goal_cases)
  case 1
  show ?case by simp
next
  case (2 shipPieces ship row col offset queue visited topRow leftCol queue' visited')
  then show ?case using pending_step [of row col offset queue visited] by simp
qed

declare rotateShip_loop.simps [simp del]

text \<open>
  The same loop, recording what it does rather than what it returns: the entries taken
  from the queue by \<open>queue.shift()\<close>, in order, up to the one at which the loop stops.
\<close>

function rotateShip_visits :: "fleet \<Rightarrow> Ship \<Rightarrow> state list \<Rightarrow> state set \<Rightarrow> state list" where
  "rotateShip_visits shipPieces ship [] visited = []"
| "rotateShip_visits shipPieces ship ((row, col, offset) # queue) visited =
     (row, col, offset) #
     (let topRow = row - (if horizontal ship then offset else 0);
          leftCol = col - (if horizontal ship then 0 else offset)
      in if canPlaceShipAt shipPieces (name ship) (size_cells ship) topRow leftCol
              (\<not> horizontal ship)
         then []
         else (case enqueue (neighbors (row, col, offset)) (queue, visited) of
                 (queue', visited') \<Rightarrow> rotateShip_visits shipPieces ship queue' visited'))"
  by pat_completeness auto
termination
proof (relation "measure (\<lambda>(shipPieces, ship, queue, visited). pending (queue, visited))",
       goal_cases)
  case 1
  show ?case by simp
next
  case (2 shipPieces ship row col offset queue visited topRow leftCol queue' visited')
  then show ?case using pending_step [of row col offset queue visited] by simp
qed

declare rotateShip_visits.simps [simp del]

text \<open>
  The initial queue and visited set. \<open>Math.floor((size - 1) / 2)\<close> is \<open>div\<close> on the
  integers, which rounds down as well; \<open>size % 2 === 0\<close> holds for the same sizes as
  \<open>mod 2 = 0\<close>. Only the first entry is added to \<open>visited\<close>.
\<close>

definition initial_queue :: "Ship \<Rightarrow> int \<Rightarrow> int \<Rightarrow> state list" where
  "initial_queue ship p0 p1 =
     (let offset = (size_cells ship - 1) div 2;
          pivotRow = p0 + (if horizontal ship then 0 else offset);
          pivotCol = p1 + (if horizontal ship then offset else 0)
      in [(pivotRow, pivotCol, offset)] @
         (if size_cells ship mod 2 = 0
          then [(pivotRow + (if horizontal ship then 0 else 1),
                 pivotCol + (if horizontal ship then 1 else 0), offset + 1)]
          else []))"

definition initial_visited :: "Ship \<Rightarrow> int \<Rightarrow> int \<Rightarrow> state set" where
  "initial_visited ship p0 p1 =
     (let offset = (size_cells ship - 1) div 2;
          pivotRow = p0 + (if horizontal ship then 0 else offset);
          pivotCol = p1 + (if horizontal ship then offset else 0)
      in {(pivotRow, pivotCol, offset)})"

text \<open>
  The state update of a successful rotation:
  \<open>prev.map(s => s.name === ship.name ? {...s, horizontal: !s.horizontal, position: [topRow, leftCol]} : s)\<close>.
\<close>

definition commit :: "fleet \<Rightarrow> Ship \<Rightarrow> int \<times> int \<Rightarrow> fleet" where
  "commit shipPieces ship origin =
     map (\<lambda>s. if name s = name ship
              then s\<lparr>horizontal := \<not> horizontal s, position := Some origin\<rparr> else s)
         shipPieces"

definition rotateShip :: "fleet \<Rightarrow> Ship \<Rightarrow> fleet" where
  "rotateShip shipPieces ship =
     (case position ship of
        None \<Rightarrow> shipPieces
      | Some (p0, p1) \<Rightarrow>
          (case rotateShip_loop shipPieces ship (initial_queue ship p0 p1)
                  (initial_visited ship p0 p1) of
             None \<Rightarrow> shipPieces
           | Some origin \<Rightarrow> commit shipPieces ship origin))"
subsection \<open>The Rotate button\<close>

text \<open>
  The button's handler is \<open>() => rotateShip(shipPieces.find((s) => s.name === selectedShip)!)\<close>.
  \<open>selectedShip\<close> is a name or \<open>null\<close>, and it is \<open>null\<close> until a ship has been dropped.
  \<open>find\<close> returns \<open>undefined\<close> when no ship has the selected name; the \<open>!\<close> is erased
  when the program is compiled, so \<open>undefined\<close> is what \<open>rotateShip\<close> receives, and its first
  statement, which reads \<open>ship.position\<close>, throws a \<open>TypeError\<close>.
\<close>

datatype error = TypeError

definition rotateShip_received :: "fleet \<Rightarrow> Ship option \<Rightarrow> error + fleet" where
  "rotateShip_received shipPieces ship =
     (case ship of
        None \<Rightarrow> Inl TypeError
      | Some s \<Rightarrow> Inr (rotateShip shipPieces s))"

definition rotate_onClick :: "fleet \<Rightarrow> string option \<Rightarrow> error + fleet" where
  "rotate_onClick shipPieces selectedShip =
     rotateShip_received shipPieces (find (\<lambda>s. Some (name s) = selectedShip) shipPieces)"

section \<open>Notions of the specification\<close>

subsection \<open>Grid, occupied cells and the fleet invariant\<close>

definition in_grid :: "int \<times> int \<Rightarrow> bool" where
  "in_grid cell = (case cell of (r, c) \<Rightarrow> 0 \<le> r \<and> r < 10 \<and> 0 \<le> c \<and> c < 10)"

text \<open>
  The cells of a ship of \<open>sz\<close> cells whose top-left cell is \<open>(row, col)\<close>: a row span
  when horizontal, a column span when vertical.
\<close>

definition cells :: "int \<Rightarrow> int \<Rightarrow> int \<Rightarrow> bool \<Rightarrow> (int \<times> int) set" where
  "cells row col sz horiz = (\<lambda>i. if horiz then (row, col + i) else (row + i, col)) ` {0..<sz}"

definition occupied :: "Ship \<Rightarrow> (int \<times> int) set" where
  "occupied ship =
     (case position ship of
        None \<Rightarrow> {}
      | Some (p0, p1) \<Rightarrow> cells p0 p1 (size_cells ship) (horizontal ship))"

fun disjoint_ships :: "fleet \<Rightarrow> bool" where
  "disjoint_ships [] = True"
| "disjoint_ships (s # rest) =
     ((\<forall>t \<in> set rest. occupied s \<inter> occupied t = {}) \<and> disjoint_ships rest)"

text \<open>
  The invariant of the data model: the cells of every placed ship lie on the board, and
  no two ships of the fleet share a cell.
\<close>

definition fleet_invariant :: "fleet \<Rightarrow> bool" where
  "fleet_invariant shipPieces =
     ((\<forall>ship \<in> set shipPieces. \<forall>cell \<in> occupied ship. in_grid cell) \<and>
      disjoint_ships shipPieces)"

text \<open>
  A placed ship is in bounds when its origin and all its cells are on the board. A ship
  of at least one cell has its origin among its cells, so for such ships this says no
  more than the invariant above.
\<close>

definition ship_in_bounds :: "Ship \<Rightarrow> bool" where
  "ship_in_bounds ship =
     (case position ship of
        None \<Rightarrow> True
      | Some (p0, p1) \<Rightarrow> in_grid (p0, p1) \<and> (\<forall>cell \<in> occupied ship. in_grid cell))"

definition placed_ships_invariant :: "fleet \<Rightarrow> bool" where
  "placed_ships_invariant shipPieces =
     ((\<forall>ship \<in> set shipPieces. ship_in_bounds ship) \<and> disjoint_ships shipPieces)"

text \<open>
  The placement validator as the specification words it: no cell of the candidate off the
  board, and no cell shared with a placed ship of another name.
\<close>

definition canPlace_spec :: "fleet \<Rightarrow> string \<Rightarrow> int \<Rightarrow> int \<Rightarrow> int \<Rightarrow> bool \<Rightarrow> bool" where
  "canPlace_spec shipPieces nm sz row col horiz =
     ((\<forall>cell \<in> cells row col sz horiz. in_grid cell) \<and>
      (\<forall>ship \<in> set shipPieces.
         name ship \<noteq> nm \<longrightarrow> occupied ship \<inter> cells row col sz horiz = {}))"

subsection \<open>The search space of a rotation\<close>

definition on_board :: "state \<Rightarrow> bool" where
  "on_board s = (case s of (r, c, off) \<Rightarrow> r \<ge> 0 \<and> r < 10 \<and> c \<ge> 0 \<and> c < 10)"

text \<open>The origin that a search state proposes for the reoriented ship, and its validity.\<close>

definition candidate :: "Ship \<Rightarrow> state \<Rightarrow> int \<times> int" where
  "candidate ship s =
     (case s of (row, col, offset) \<Rightarrow>
        (row - (if horizontal ship then offset else 0),
         col - (if horizontal ship then 0 else offset)))"

definition valid_state :: "fleet \<Rightarrow> Ship \<Rightarrow> state \<Rightarrow> bool" where
  "valid_state shipPieces ship s =
     canPlaceShipAt shipPieces (name ship) (size_cells ship)
       (fst (candidate ship s)) (snd (candidate ship s)) (\<not> horizontal ship)"

text \<open>
  The breadth-first traversal on its own: the order in which states leave the queue when
  no candidate is ever accepted. Neighbours are expanded up, down, left, right.
\<close>

function bfs_order :: "state list \<Rightarrow> state set \<Rightarrow> state list" where
  "bfs_order [] visited = []"
| "bfs_order ((row, col, offset) # queue) visited =
     (row, col, offset) #
     (case enqueue (neighbors (row, col, offset)) (queue, visited) of
        (queue', visited') \<Rightarrow> bfs_order queue' visited')"
  by pat_completeness auto
termination
proof (relation "measure (\<lambda>(queue, visited). pending (queue, visited))", goal_cases)
  case 1
  show ?case by simp
next
  case (2 row col offset queue visited queue' visited')
  then show ?case using pending_step [of row col offset queue visited] by simp
qed

declare bfs_order.simps [simp del]

text \<open>
  \<open>steps seeds n s\<close>: the state \<open>s\<close> is reached from a seed in \<open>n\<close> grid steps, every
  step going to one of the four neighbours and staying on the board.
\<close>

inductive steps :: "state list \<Rightarrow> nat \<Rightarrow> state \<Rightarrow> bool" for seeds :: "state list" where
  seed: "s \<in> set seeds \<Longrightarrow> steps seeds 0 s"
| step: "steps seeds n s \<Longrightarrow> t \<in> set (neighbors s) \<Longrightarrow> on_board t \<Longrightarrow> steps seeds (Suc n) t"

text \<open>
  The invariant of the traversal. \<open>D\<close> holds the states already taken from the queue,
  the queue is \<open>A @ B\<close> with the states of \<open>A\<close> reached in \<open>k\<close> steps and those of \<open>B\<close> in
  \<open>k + 1\<close>; whatever is reachable in fewer than \<open>k\<close> steps is in \<open>D\<close>, whatever is
  reachable in \<open>k\<close> steps is in \<open>D\<close> or \<open>A\<close>, and the board neighbours of \<open>D\<close> are known.
  A state may be reachable by several walks, so a state that enters the queue a second
  time does not disturb the invariant.
\<close>

definition layered ::
  "state list \<Rightarrow> state set \<Rightarrow> state list \<Rightarrow> state list \<Rightarrow> state set \<Rightarrow> nat \<Rightarrow> bool" where
  "layered seeds D A B v k =
     ((\<forall>a \<in> set A. steps seeds k a) \<and>
      (\<forall>b \<in> set B. steps seeds (Suc k) b) \<and>
      (\<forall>u m. steps seeds m u \<and> m < k \<longrightarrow> u \<in> D) \<and>
      (\<forall>u. steps seeds k u \<longrightarrow> u \<in> D \<union> set A) \<and>
      (\<forall>x \<in> D. \<forall>t \<in> set (neighbors x). on_board t \<longrightarrow> t \<in> D \<union> set A \<union> set B) \<and>
      v \<subseteq> D \<union> set A \<union> set B)"

text \<open>
  The cell-grid distance between the pivot cells of two states (rows apart plus columns
  apart), and the distance of a state from the seed that carries the same offset.
\<close>

definition cell_distance :: "state \<Rightarrow> state \<Rightarrow> nat" where
  "cell_distance s0 s = nat (\<bar>fst s - fst s0\<bar> + \<bar>fst (snd s) - fst (snd s0)\<bar>)"

definition seed_distance :: "state list \<Rightarrow> state \<Rightarrow> nat" where
  "seed_distance seeds s =
     (case filter (\<lambda>s0. snd (snd s0) = snd (snd s)) seeds of
        [] \<Rightarrow> 0
      | s0 # rest \<Rightarrow> cell_distance s0 s)"

text \<open>
  The cell of a ship with origin \<open>(p0, p1)\<close> that lies \<open>i\<close> cells along its axis, as
  a search state with offset \<open>i\<close>.
\<close>

definition centre_state :: "Ship \<Rightarrow> int \<Rightarrow> int \<Rightarrow> int \<Rightarrow> state" where
  "centre_state ship p0 p1 i = (if horizontal ship then (p0, p1 + i, i) else (p0 + i, p1, i))"

subsection \<open>Fleets used as examples\<close>

text \<open>The fleet after the Carrier went to \<open>(0,0)\<close> and the Battleship to \<open>(1,0)\<close>.\<close>

definition two_placed :: fleet where
  "two_placed =
     snd (placeShip (snd (placeShip defaultShips ''Carrier'' 5 0 0 True)) ''Battleship'' 4 1 0 True)"

text \<open>
  Three ships placed in turn: the Destroyer on \<open>(0,0)\<close>, the Cruiser on \<open>(1,0)\<close> and the
  Submarine on \<open>(2,0)\<close>, all horizontal.
\<close>

definition three_placed :: fleet where
  "three_placed =
     snd (placeShip (snd (placeShip (snd (placeShip defaultShips ''Destroyer'' 2 0 0 True))
       ''Cruiser'' 3 1 0 True)) ''Submarine'' 3 2 0 True)"

text \<open>The default fleet with the Cruiser dropped on \<open>(0,0)\<close>.\<close>

definition cruiser_placed :: fleet where
  "cruiser_placed = snd (placeShip defaultShips ''Cruiser'' 3 0 0 True)"

text \<open>
  A board with no room: ten-cell ships fill the rows 2, 5 and 8, so that no three cells
  above one another are free, and the three-cell ship \<open>Tug\<close> lies on \<open>(0,0)\<close>.
\<close>

definition boxed_in :: fleet where
  "boxed_in =
     [\<lparr>name = ''Tug'', size_cells = 3, position = Some (0, 0), color = ''#C0D6F0'',
        horizontal = True\<rparr>,
      \<lparr>name = ''Wall2'', size_cells = 10, position = Some (2, 0), color = ''#1E40AF'',
        horizontal = True\<rparr>,
      \<lparr>name = ''Wall5'', size_cells = 10, position = Some (5, 0), color = ''#1E40AF'',
        horizontal = True\<rparr>,
      \<lparr>name = ''Wall8'', size_cells = 10, position = Some (8, 0), color = ''#1E40AF'',
        horizontal = True\<rparr>]"

section \<open>Properties of the placement engine\<close>

subsection \<open>The validator in terms of occupied cells\<close>

lemma cells_iff:
  "(r, c) \<in> cells row col sz horiz \<longleftrightarrow>
     (if horiz then r = row \<and> col \<le> c \<and> c < col + sz else c = col \<and> row \<le> r \<and> r < row + sz)"
proof (cases horiz)
  case True
  have "(\<exists>i\<in>{0..<sz}. c = col + i) \<longleftrightarrow> col \<le> c \<and> c < col + sz"
    by (auto intro: bexI [of _ "c - col"])
  then show ?thesis using True by (auto simp: cells_def image_iff)
next
  case False
  have "(\<exists>i\<in>{0..<sz}. r = row + i) \<longleftrightarrow> row \<le> r \<and> r < row + sz"
    by (auto intro: bexI [of _ "r - row"])
  then show ?thesis using False by (auto simp: cells_def image_iff)
qed

lemma covers_iff: "covers nm r c ship \<longleftrightarrow> name ship \<noteq> nm \<and> (r, c) \<in> occupied ship"
  by (auto simp: covers_def occupied_def cells_iff split: option.splits)

lemma overlapping_iff:
  "overlapping shipPieces nm r c \<longleftrightarrow> (\<exists>ship \<in> set shipPieces. name ship \<noteq> nm \<and> (r, c) \<in> occupied ship)"
  by (simp add: overlapping_def list_ex_iff covers_iff)

lemma canPlaceShipAt_loop_iff:
  "canPlaceShipAt_loop shipPieces nm sz startRow startCol horiz i \<longleftrightarrow>
     (\<forall>j. i \<le> j \<and> j < sz \<longrightarrow>
        \<not> overlapping shipPieces nm (startRow + (if horiz then 0 else j)) (startCol + (if horiz then j else 0)))"
proof (induction shipPieces nm sz startRow startCol horiz i rule: canPlaceShipAt_loop.induct)
  case (1 shipPieces nm sz startRow startCol horiz i)
  show ?case
  proof (cases "i < sz")
    case False
    then show ?thesis by (subst canPlaceShipAt_loop.simps) auto
  next
    case True
    note lt = this
    show ?thesis
    proof (cases "overlapping shipPieces nm (startRow + (if horiz then 0 else i)) (startCol + (if horiz then i else 0))")
      case True
      then show ?thesis using lt by (subst canPlaceShipAt_loop.simps) (auto simp: Let_def)
    next
      case False
      have split: "\<And>j. (i \<le> j \<and> j < sz) \<longleftrightarrow> (j = i \<or> (i + 1 \<le> j \<and> j < sz))" using lt by auto
      have "canPlaceShipAt_loop shipPieces nm sz startRow startCol horiz i
            = canPlaceShipAt_loop shipPieces nm sz startRow startCol horiz (i + 1)"
        using lt False by (subst canPlaceShipAt_loop.simps) (simp add: Let_def)
      also have "\<dots> \<longleftrightarrow> (\<forall>j. i + 1 \<le> j \<and> j < sz \<longrightarrow>
        \<not> overlapping shipPieces nm (startRow + (if horiz then 0 else j)) (startCol + (if horiz then j else 0)))"
        using 1 [OF lt refl refl False] .
      finally show ?thesis using False unfolding split by auto
    qed
  qed
qed

lemma loop_disjoint:
  "canPlaceShipAt_loop shipPieces nm sz startRow startCol horiz 0 \<longleftrightarrow>
     (\<forall>ship \<in> set shipPieces. name ship \<noteq> nm \<longrightarrow>
        occupied ship \<inter> cells startRow startCol sz horiz = {})"
proof (cases horiz)
  case True
  have "\<And>S. (S \<inter> cells startRow startCol sz True = {}) \<longleftrightarrow>
            (\<forall>j. 0 \<le> j \<and> j < sz \<longrightarrow> (startRow, startCol + j) \<notin> S)"
    by (auto simp: cells_def)
  then show ?thesis using True
    unfolding canPlaceShipAt_loop_iff overlapping_iff by auto
next
  case False
  have "\<And>S. (S \<inter> cells startRow startCol sz False = {}) \<longleftrightarrow>
            (\<forall>j. 0 \<le> j \<and> j < sz \<longrightarrow> (startRow + j, startCol) \<notin> S)"
    by (auto simp: cells_def)
  then show ?thesis using False
    unfolding canPlaceShipAt_loop_iff overlapping_iff by auto
qed

lemma cells_in_grid:
  assumes "in_grid (startRow, startCol)"
  shows "(\<forall>cell \<in> cells startRow startCol sz horiz. in_grid cell) \<longleftrightarrow>
         \<not> (horiz \<and> startCol + sz > 10) \<and> \<not> (\<not> horiz \<and> startRow + sz > 10)"
proof (cases "sz \<le> 0")
  case True
  then show ?thesis using assms by (auto simp: cells_def in_grid_def)
next
  case False
  then have last: "sz - 1 \<in> {0..<sz}" by simp
  show ?thesis
  proof
    assume b: "\<forall>cell \<in> cells startRow startCol sz horiz. in_grid cell"
    have "(if horiz then (startRow, startCol + (sz - 1)) else (startRow + (sz - 1), startCol))
            \<in> cells startRow startCol sz horiz"
      unfolding cells_def using last by (rule rev_image_eqI) simp
    with b have "in_grid (if horiz then (startRow, startCol + (sz - 1))
                          else (startRow + (sz - 1), startCol))"
      by blast
    then show "\<not> (horiz \<and> startCol + sz > 10) \<and> \<not> (\<not> horiz \<and> startRow + sz > 10)"
      by (auto simp: in_grid_def split: if_splits)
  next
    assume "\<not> (horiz \<and> startCol + sz > 10) \<and> \<not> (\<not> horiz \<and> startRow + sz > 10)"
    then show "\<forall>cell \<in> cells startRow startCol sz horiz. in_grid cell"
      using assms by (cases horiz) (auto simp: cells_def in_grid_def)
  qed
qed

lemma canPlaceShipAt_iff:
  "canPlaceShipAt shipPieces nm sz startRow startCol horiz \<longleftrightarrow>
     in_grid (startRow, startCol) \<and>
     (\<forall>cell \<in> cells startRow startCol sz horiz. in_grid cell) \<and>
     (\<forall>ship \<in> set shipPieces. name ship \<noteq> nm \<longrightarrow>
        occupied ship \<inter> cells startRow startCol sz horiz = {})"
proof (cases "in_grid (startRow, startCol)")
  case True
  have "canPlaceShipAt shipPieces nm sz startRow startCol horiz \<longleftrightarrow>
        \<not> (horiz \<and> startCol + sz > 10) \<and> \<not> (\<not> horiz \<and> startRow + sz > 10) \<and>
        canPlaceShipAt_loop shipPieces nm sz startRow startCol horiz 0"
    using True by (auto simp: canPlaceShipAt_def in_grid_def)
  then show ?thesis
    unfolding loop_disjoint using True cells_in_grid [OF True, of sz horiz] by blast
next
  case False
  then show ?thesis by (auto simp: canPlaceShipAt_def in_grid_def)
qed


subsection \<open>What the loop of rotateShip returns was validated\<close>

lemma rotateShip_loop_sound:
  "rotateShip_loop shipPieces ship queue visited = Some origin \<Longrightarrow>
     canPlaceShipAt shipPieces (name ship) (size_cells ship) (fst origin) (snd origin)
       (\<not> horizontal ship)"
proof (induction shipPieces ship queue visited rule: rotateShip_loop.induct)
  case (1 shipPieces ship visited)
  then show ?case by (simp add: rotateShip_loop.simps)
next
  case (2 shipPieces ship row col offset queue visited)
  let ?topRow = "row - (if horizontal ship then offset else 0)"
  let ?leftCol = "col - (if horizontal ship then 0 else offset)"
  show ?case
  proof (cases "canPlaceShipAt shipPieces (name ship) (size_cells ship) ?topRow ?leftCol
                  (\<not> horizontal ship)")
    case True
    then have "origin = (?topRow, ?leftCol)"
      using 2(2) by (simp add: rotateShip_loop.simps Let_def)
    then show ?thesis using True by simp
  next
    case False
    obtain queue' visited' where
      e: "enqueue (neighbors (row, col, offset)) (queue, visited) = (queue', visited')"
      by (cases "enqueue (neighbors (row, col, offset)) (queue, visited)")
    have "rotateShip_loop shipPieces ship queue' visited' = Some origin"
      using 2(2) False e by (simp add: rotateShip_loop.simps Let_def)
    then show ?thesis using 2(1) [OF refl refl False e [symmetric]] by simp
  qed
qed

subsection \<open>Claim C3: what canPlaceShipAt decides\<close>

text \<open>
  Claim C3. For every fleet, ship name, size, origin and orientation, \<open>canPlaceShipAt\<close>
  returns false when a cell of the candidate placement lies off the board, false when a
  cell of the candidate is a cell of a placed ship of another name (unplaced ships have
  no cells), and true otherwise: it computes \<open>canPlace_spec\<close>. A size is a positive
  integer, the number of cells of a ship; every call passes the size of a ship of the
  fleet.
\<close>

theorem canPlaceShipAt_spec:
  assumes "1 \<le> sz"
  shows "canPlaceShipAt shipPieces nm sz row col horiz
         = canPlace_spec shipPieces nm sz row col horiz"
proof -
  have "(if horiz then (row, col + 0) else (row + 0, col)) \<in> cells row col sz horiz"
    unfolding cells_def using assms by (intro rev_image_eqI [of 0]) simp_all
  then have "(row, col) \<in> cells row col sz horiz" by (simp split: if_splits)
  then show ?thesis unfolding canPlaceShipAt_iff canPlace_spec_def by blast
qed

text \<open>
  The scenario of the specification: with the Carrier lying on \<open>(0,0)\<close> to \<open>(0,4)\<close>, the
  Battleship fits at \<open>(1,0)\<close> and does not fit at \<open>(0,3)\<close>; nor does it fit where it
  would reach beyond the board, horizontally at \<open>(0,7)\<close> or vertically at \<open>(7,9)\<close> or
  \<open>(-1,9)\<close>.
\<close>

theorem canPlaceShipAt_spec_witness:
  "(1::int) \<le> 4 \<and>
   canPlaceShipAt (snd (placeShip defaultShips ''Carrier'' 5 0 0 True)) ''Battleship'' 4 1 0 True \<and>
   canPlace_spec (snd (placeShip defaultShips ''Carrier'' 5 0 0 True)) ''Battleship'' 4 1 0 True \<and>
   \<not> canPlaceShipAt (snd (placeShip defaultShips ''Carrier'' 5 0 0 True)) ''Battleship'' 4 0 3 True \<and>
   \<not> canPlace_spec (snd (placeShip defaultShips ''Carrier'' 5 0 0 True)) ''Battleship'' 4 0 3 True \<and>
   \<not> canPlaceShipAt (snd (placeShip defaultShips ''Carrier'' 5 0 0 True)) ''Battleship'' 4 0 7 True \<and>
   \<not> canPlace_spec (snd (placeShip defaultShips ''Carrier'' 5 0 0 True)) ''Battleship'' 4 0 7 True \<and>
   \<not> canPlaceShipAt (snd (placeShip defaultShips ''Carrier'' 5 0 0 True)) ''Battleship'' 4 7 9 False \<and>
   \<not> canPlace_spec (snd (placeShip defaultShips ''Carrier'' 5 0 0 True)) ''Battleship'' 4 7 9 False \<and>
   \<not> canPlaceShipAt (snd (placeShip defaultShips ''Carrier'' 5 0 0 True)) ''Battleship'' 4 (- 1) 9 False \<and>
   \<not> canPlace_spec (snd (placeShip defaultShips ''Carrier'' 5 0 0 True)) ''Battleship'' 4 (- 1) 9 False"
proof -
  have sz: "(1::int) \<le> 4" by simp
  have yes: "canPlaceShipAt (snd (placeShip defaultShips ''Carrier'' 5 0 0 True))
               ''Battleship'' 4 1 0 True"
    by code_simp
  have no: "\<not> canPlaceShipAt (snd (placeShip defaultShips ''Carrier'' 5 0 0 True))
               ''Battleship'' 4 0 3 True"
    "\<not> canPlaceShipAt (snd (placeShip defaultShips ''Carrier'' 5 0 0 True))
               ''Battleship'' 4 0 7 True"
    "\<not> canPlaceShipAt (snd (placeShip defaultShips ''Carrier'' 5 0 0 True))
               ''Battleship'' 4 7 9 False"
    "\<not> canPlaceShipAt (snd (placeShip defaultShips ''Carrier'' 5 0 0 True))
               ''Battleship'' 4 (- 1) 9 False"
    by code_simp+
  show ?thesis
    using sz yes no
      canPlaceShipAt_spec [OF sz, of "snd (placeShip defaultShips ''Carrier'' 5 0 0 True)"
        "''Battleship''" 1 0 True]
      canPlaceShipAt_spec [OF sz, of "snd (placeShip defaultShips ''Carrier'' 5 0 0 True)"
        "''Battleship''" 0 3 True]
      canPlaceShipAt_spec [OF sz, of "snd (placeShip defaultShips ''Carrier'' 5 0 0 True)"
        "''Battleship''" 0 7 True]
      canPlaceShipAt_spec [OF sz, of "snd (placeShip defaultShips ''Carrier'' 5 0 0 True)"
        "''Battleship''" 7 9 False]
      canPlaceShipAt_spec [OF sz, of "snd (placeShip defaultShips ''Carrier'' 5 0 0 True)"
        "''Battleship''" "- 1" 9 False]
    by simp
qed

subsection \<open>Claim C8: a ship never blocks itself\<close>

lemma disjoint_ships_distinct:
  "disjoint_ships shipPieces \<Longrightarrow> s \<in> set shipPieces \<Longrightarrow> t \<in> set shipPieces \<Longrightarrow> s \<noteq> t
     \<Longrightarrow> occupied s \<inter> occupied t = {}"
  by (induction shipPieces) auto

text \<open>
  Claim C8. In a fleet whose placed ships are all in bounds and pairwise disjoint,
  validating a placed ship at its own origin, with its own name, size and orientation,
  returns true.
\<close>

theorem own_placement_valid:
  assumes "placed_ships_invariant shipPieces" and "ship \<in> set shipPieces"
    and "position ship = Some (row, col)"
  shows "canPlaceShipAt shipPieces (name ship) (size_cells ship) row col (horizontal ship)"
proof -
  have occ: "occupied ship = cells row col (size_cells ship) (horizontal ship)"
    using assms(3) by (simp add: occupied_def)
  have "ship_in_bounds ship" using assms(1,2) by (simp add: placed_ships_invariant_def)
  then have inside: "in_grid (row, col)"
    and grid: "\<forall>cell \<in> cells row col (size_cells ship) (horizontal ship). in_grid cell"
    using assms(3) occ by (simp_all add: ship_in_bounds_def)
  have other: "\<forall>t \<in> set shipPieces. name t \<noteq> name ship \<longrightarrow>
                 occupied t \<inter> cells row col (size_cells ship) (horizontal ship) = {}"
  proof (intro ballI impI)
    fix t assume t: "t \<in> set shipPieces" "name t \<noteq> name ship"
    then have "t \<noteq> ship" by auto
    then show "occupied t \<inter> cells row col (size_cells ship) (horizontal ship) = {}"
      using disjoint_ships_distinct [of shipPieces t ship] assms(1,2) t(1) occ
      by (simp add: placed_ships_invariant_def)
  qed
  show ?thesis unfolding canPlaceShipAt_iff using inside grid other by blast
qed

theorem own_placement_valid_witness:
  "placed_ships_invariant two_placed \<and> two_placed ! 1 \<in> set two_placed \<and>
   position (two_placed ! 1) = Some (1, 0) \<and>
   canPlaceShipAt two_placed (name (two_placed ! 1)) (size_cells (two_placed ! 1)) 1 0
     (horizontal (two_placed ! 1))"
proof -
  have h: "placed_ships_invariant two_placed" "two_placed ! 1 \<in> set two_placed"
    "position (two_placed ! 1) = Some (1, 0)"
    by code_simp+
  show ?thesis using h own_placement_valid [OF h] by simp
qed

text \<open>
  For fleets whose ships have at least one cell, the two invariants are the same.
\<close>

lemma fleet_invariant_in_bounds:
  assumes "\<forall>ship \<in> set shipPieces. 1 \<le> size_cells ship"
  shows "placed_ships_invariant shipPieces = fleet_invariant shipPieces"
proof -
  have "ship_in_bounds ship = (\<forall>cell \<in> occupied ship. in_grid cell)"
    if "ship \<in> set shipPieces" for ship
  proof (cases "position ship")
    case None
    then show ?thesis by (simp add: ship_in_bounds_def occupied_def)
  next
    case (Some p)
    obtain p0 p1 where p: "p = (p0, p1)" by (cases p)
    have sz: "0 < size_cells ship" using assms that by force
    have "(if horizontal ship then (p0, p1 + 0) else (p0 + 0, p1))
            \<in> cells p0 p1 (size_cells ship) (horizontal ship)"
      unfolding cells_def using sz by (intro rev_image_eqI [of 0]) simp_all
    then have "(p0, p1) \<in> occupied ship" using Some p by (simp add: occupied_def split: if_splits)
    then show ?thesis using Some p by (auto simp: ship_in_bounds_def)
  qed
  then show ?thesis by (auto simp: placed_ships_invariant_def fleet_invariant_def)
qed

subsection \<open>Claim C5: placeShip validates again before it commits\<close>

text \<open>
  Claim C5. \<open>placeShip\<close> calls \<open>canPlaceShipAt\<close> on its own arguments. When that succeeds
  it returns true and the new fleet is the old one with the position of every ship of
  the given name set to \<open>(row, col)\<close>; when it fails it returns false and the fleet is the
  old one.
\<close>

theorem placeShip_revalidates:
  "(canPlaceShipAt shipPieces nm sz row col horiz \<longrightarrow>
      fst (placeShip shipPieces nm sz row col horiz) = True \<and>
      length (snd (placeShip shipPieces nm sz row col horiz)) = length shipPieces \<and>
      (\<forall>i < length shipPieces.
         snd (placeShip shipPieces nm sz row col horiz) ! i =
           (if name (shipPieces ! i) = nm then (shipPieces ! i)\<lparr>position := Some (row, col)\<rparr>
            else shipPieces ! i))) \<and>
   (\<not> canPlaceShipAt shipPieces nm sz row col horiz \<longrightarrow>
      placeShip shipPieces nm sz row col horiz = (False, shipPieces))"
  by (simp add: placeShip_def)

theorem placeShip_revalidates_witness:
  "canPlaceShipAt defaultShips ''Carrier'' 5 0 0 True \<and>
   fst (placeShip defaultShips ''Carrier'' 5 0 0 True) = True \<and>
   snd (placeShip defaultShips ''Carrier'' 5 0 0 True) ! 0 =
     (defaultShips ! 0)\<lparr>position := Some (0, 0)\<rparr> \<and>
   \<not> canPlaceShipAt (snd (placeShip defaultShips ''Carrier'' 5 0 0 True)) ''Battleship'' 4 0 3 True \<and>
   placeShip (snd (placeShip defaultShips ''Carrier'' 5 0 0 True)) ''Battleship'' 4 0 3 True
     = (False, snd (placeShip defaultShips ''Carrier'' 5 0 0 True))"
proof -
  have a: "canPlaceShipAt defaultShips ''Carrier'' 5 0 0 True" by code_simp
  have b: "\<not> canPlaceShipAt (snd (placeShip defaultShips ''Carrier'' 5 0 0 True))
              ''Battleship'' 4 0 3 True"
    by code_simp
  have c: "0 < length defaultShips" "name (defaultShips ! 0) = ''Carrier''"
    by (simp_all add: defaultShips_def)
  show ?thesis
    using a b c placeShip_revalidates [of defaultShips "''Carrier''" 5 0 0 True]
      placeShip_revalidates [of "snd (placeShip defaultShips ''Carrier'' 5 0 0 True)"
        "''Battleship''" 4 0 3 True]
    by simp
qed

subsection \<open>Claim C10: what placeShip and rotateShip leave alone\<close>

text \<open>
  Claim C10. Both operations keep the length and order of the fleet. A ship whose name
  is not the targeted one is unchanged. Of a ship of the targeted name, \<open>placeShip\<close>
  changes at most the position, and \<open>rotateShip\<close> at most the position and the
  \<open>horizontal\<close> flag: name, size and colour of every ship stay as they were.
\<close>

theorem mutations_frame:
  "length (snd (placeShip shipPieces nm sz row col horiz)) = length shipPieces \<and>
   length (rotateShip shipPieces ship) = length shipPieces \<and>
   (\<forall>i < length shipPieces.
      (name (shipPieces ! i) \<noteq> nm \<longrightarrow>
         snd (placeShip shipPieces nm sz row col horiz) ! i = shipPieces ! i) \<and>
      snd (placeShip shipPieces nm sz row col horiz) ! i =
        (shipPieces ! i)
          \<lparr>position := position (snd (placeShip shipPieces nm sz row col horiz) ! i)\<rparr> \<and>
      (name (shipPieces ! i) \<noteq> name ship \<longrightarrow>
         rotateShip shipPieces ship ! i = shipPieces ! i) \<and>
      rotateShip shipPieces ship ! i =
        (shipPieces ! i)
          \<lparr>position := position (rotateShip shipPieces ship ! i),
           horizontal := horizontal (rotateShip shipPieces ship ! i)\<rparr>)"
proof -
  have place: "snd (placeShip shipPieces nm sz row col horiz) = shipPieces \<or>
     snd (placeShip shipPieces nm sz row col horiz) =
       map (\<lambda>s. if name s = nm then s\<lparr>position := Some (row, col)\<rparr> else s) shipPieces"
    by (simp add: placeShip_def)
  have rotate: "rotateShip shipPieces ship = shipPieces \<or>
     (\<exists>origin. rotateShip shipPieces ship =
        map (\<lambda>s. if name s = name ship
                 then s\<lparr>horizontal := \<not> horizontal s, position := Some origin\<rparr> else s)
            shipPieces)"
    by (auto simp: rotateShip_def commit_def split: option.splits)
  from place have p: "length (snd (placeShip shipPieces nm sz row col horiz)) = length shipPieces \<and>
    (\<forall>i < length shipPieces.
      (name (shipPieces ! i) \<noteq> nm \<longrightarrow>
         snd (placeShip shipPieces nm sz row col horiz) ! i = shipPieces ! i) \<and>
      snd (placeShip shipPieces nm sz row col horiz) ! i =
        (shipPieces ! i)
          \<lparr>position := position (snd (placeShip shipPieces nm sz row col horiz) ! i)\<rparr>)"
    by (elim disjE) simp_all
  from rotate have r: "length (rotateShip shipPieces ship) = length shipPieces \<and>
    (\<forall>i < length shipPieces.
      (name (shipPieces ! i) \<noteq> name ship \<longrightarrow>
         rotateShip shipPieces ship ! i = shipPieces ! i) \<and>
      rotateShip shipPieces ship ! i =
        (shipPieces ! i)
          \<lparr>position := position (rotateShip shipPieces ship ! i),
           horizontal := horizontal (rotateShip shipPieces ship ! i)\<rparr>)"
    by (elim disjE exE) simp_all
  from p r show ?thesis by simp
qed

theorem mutations_frame_witness:
  "(2::nat) < length three_placed \<and> name (three_placed ! 2) \<noteq> ''Carrier'' \<and>
   name (three_placed ! 2) \<noteq> name (three_placed ! 4) \<and>
   snd (placeShip three_placed ''Carrier'' 5 5 0 True) ! 2 = three_placed ! 2 \<and>
   rotateShip three_placed (three_placed ! 4) ! 2 = three_placed ! 2"
proof -
  have h: "(2::nat) < length three_placed" "name (three_placed ! 2) \<noteq> ''Carrier''"
    "name (three_placed ! 2) \<noteq> name (three_placed ! 4)"
    by code_simp+
  show ?thesis
    using h mutations_frame [of three_placed "''Carrier''" 5 5 0 True "three_placed ! 4"]
    by simp
qed

subsection \<open>Claim C6: a rotation that does not commit\<close>

text \<open>
  Given a ship object, \<open>rotateShip\<close> returns the fleet as it was for an unplaced ship,
  and also when the search runs out of queue entries without accepting a candidate, which
  is what happens when no origin on the board takes the reoriented ship.
\<close>

lemma rotateShip_no_commit:
  "(position ship = None \<longrightarrow> rotateShip shipPieces ship = shipPieces) \<and>
   (\<forall>p0 p1. position ship = Some (p0, p1) \<and>
       rotateShip_loop shipPieces ship (initial_queue ship p0 p1) (initial_visited ship p0 p1)
         = None \<longrightarrow>
       rotateShip shipPieces ship = shipPieces) \<and>
   ((\<forall>row col. \<not> canPlaceShipAt shipPieces (name ship) (size_cells ship) row col
                    (\<not> horizontal ship)) \<longrightarrow>
      rotateShip shipPieces ship = shipPieces)"
proof (intro conjI impI allI)
  assume "position ship = None"
  then show "rotateShip shipPieces ship = shipPieces" by (simp add: rotateShip_def)
next
  fix p0 p1
  assume "position ship = Some (p0, p1) \<and>
    rotateShip_loop shipPieces ship (initial_queue ship p0 p1) (initial_visited ship p0 p1) = None"
  then show "rotateShip shipPieces ship = shipPieces" by (simp add: rotateShip_def)
next
  assume none: "\<forall>row col. \<not> canPlaceShipAt shipPieces (name ship) (size_cells ship) row col
                  (\<not> horizontal ship)"
  show "rotateShip shipPieces ship = shipPieces"
  proof (cases "position ship")
    case None
    then show ?thesis by (simp add: rotateShip_def)
  next
    case (Some p)
    obtain p0 p1 where p: "p = (p0, p1)" by (cases p)
    have "rotateShip_loop shipPieces ship (initial_queue ship p0 p1) (initial_visited ship p0 p1)
            = None"
    proof (rule ccontr)
      assume "rotateShip_loop shipPieces ship (initial_queue ship p0 p1)
                (initial_visited ship p0 p1) \<noteq> None"
      then obtain origin where
        "rotateShip_loop shipPieces ship (initial_queue ship p0 p1) (initial_visited ship p0 p1)
           = Some origin"
        by auto
      from rotateShip_loop_sound [OF this] none show False by blast
    qed
    then show ?thesis using Some p by (simp add: rotateShip_def)
  qed
qed

text \<open>The unplaced Carrier, and the \<open>Tug\<close> on the board with no room.\<close>

lemma rotateShip_no_commit_examples:
  "position (defaultShips ! 0) = None \<and>
   rotateShip defaultShips (defaultShips ! 0) = defaultShips \<and>
   fleet_invariant boxed_in \<and>
   position (boxed_in ! 0) = Some (0, 0) \<and>
   rotateShip_loop boxed_in (boxed_in ! 0) (initial_queue (boxed_in ! 0) 0 0)
     (initial_visited (boxed_in ! 0) 0 0) = None \<and>
   rotateShip boxed_in (boxed_in ! 0) = boxed_in"
proof -
  have a: "position (defaultShips ! 0) = None" by code_simp
  have b: "position (boxed_in ! 0) = Some (0, 0)" "fleet_invariant boxed_in" by code_simp+
  have c: "rotateShip_loop boxed_in (boxed_in ! 0) (initial_queue (boxed_in ! 0) 0 0)
             (initial_visited (boxed_in ! 0) 0 0) = None"
    by code_simp
  show ?thesis
    using a b c rotateShip_no_commit [of "defaultShips ! 0" defaultShips]
      rotateShip_no_commit [of "boxed_in ! 0" boxed_in]
    by blast
qed

lemma rotate_onClick_selected:
  assumes "s \<in> set shipPieces" and "distinct (map name shipPieces)"
  shows "rotate_onClick shipPieces (Some (name s)) = Inr (rotateShip shipPieces s)"
proof -
  have "find (\<lambda>t. name t = name s) shipPieces = Some s"
    using assms
  proof (induction shipPieces)
    case Nil
    then show ?case by simp
  next
    case (Cons a rest)
    show ?case
    proof (cases "a = s")
      case True
      then show ?thesis by simp
    next
      case False
      then have mem: "s \<in> set rest" using Cons(2) by simp
      have "name a \<notin> name ` set rest" using Cons(3) by simp
      then have "name a \<noteq> name s" using mem by blast
      then show ?thesis using Cons(1) [OF mem] Cons(3) by simp
    qed
  qed
  then show ?thesis by (simp add: rotate_onClick_def rotateShip_received_def)
qed

text \<open>
  Claim C6 says that \<open>rotateShip\<close> never fails with an error. On the first screen no
  ship is selected: the Rotate button then hands \<open>undefined\<close> to \<open>rotateShip\<close>, which
  throws a \<open>TypeError\<close> on its first statement instead of leaving the fleet as it is.
\<close>

theorem rotate_onClick_nothing_selected:
  "rotate_onClick defaultShips None = Inl TypeError"
  by (simp add: rotate_onClick_def rotateShip_received_def defaultShips_def)

subsection \<open>Claim C7: rotating a three-cell ship in the corner\<close>

lemma cells_three_down: "cells 0 1 3 False = {(0, 1), (1, 1), (2, 1)}"
proof -
  have "\<And>r c. (r, c) \<in> cells 0 1 3 False \<longleftrightarrow> (r, c) \<in> {(0, 1), (1, 1), (2, 1)}"
    unfolding cells_iff by auto
  then show ?thesis by auto
qed

text \<open>
  Claim C7. A three-cell ship of the fleet lies horizontally on \<open>(0,0)\<close>, and no placed
  ship of another name has a cell among \<open>(0,1)\<close>, \<open>(1,1)\<close>, \<open>(2,1)\<close>. Then \<open>rotateShip\<close>
  commits the origin \<open>(0,1)\<close>: the ship becomes vertical and occupies \<open>(0,1)\<close>, \<open>(1,1)\<close>
  and \<open>(2,1)\<close>. (The pivot itself proposes the origin \<open>(-1,1)\<close>, which is off the board;
  the accepted candidate is the one of the pivot's lower neighbour.)
\<close>

theorem rotate_three_cell_scenario:
  assumes "ship \<in> set shipPieces" and "size_cells ship = 3"
    and "position ship = Some (0, 0)" and "horizontal ship"
    and free: "\<forall>s \<in> set shipPieces. name s \<noteq> name ship \<longrightarrow>
                 occupied s \<inter> {(0, 1), (1, 1), (2, 1)} = {}"
  shows "rotateShip shipPieces ship = commit shipPieces ship (0, 1) \<and>
         ship\<lparr>horizontal := False, position := Some (0, 1)\<rparr> \<in> set (rotateShip shipPieces ship) \<and>
         occupied (ship\<lparr>horizontal := False, position := Some (0, 1)\<rparr>)
           = {(0, 1), (1, 1), (2, 1)}"
proof -
  have iq: "initial_queue ship 0 0 = [(0, 1, 1)]"
    using assms(2,4) by (simp add: initial_queue_def)
  have iv: "initial_visited ship 0 0 = {(0, 1, 1)}"
    using assms(2,4) by (simp add: initial_visited_def)
  have first: "\<not> canPlaceShipAt shipPieces (name ship) 3 (-1) 1 False"
    by (simp add: canPlaceShipAt_def)
  have enq: "enqueue (neighbors (0, 1, 1)) ([], {(0, 1, 1)})
             = ([(1, 1, 1), (0, 0, 1), (0, 2, 1)], {(0, 2, 1), (0, 0, 1), (1, 1, 1), (0, 1, 1)})"
    by (simp add: neighbors_def)
  have second: "canPlaceShipAt shipPieces (name ship) 3 0 1 False"
    unfolding canPlaceShipAt_iff cells_three_down using free by (simp add: in_grid_def)
  have "rotateShip_loop shipPieces ship [(0, 1, 1)] {(0, 1, 1)} = Some (0, 1)"
    using assms(2,4) first enq second by (simp add: rotateShip_loop.simps)
  then have rot: "rotateShip shipPieces ship = commit shipPieces ship (0, 1)"
    using assms(3) iq iv by (simp add: rotateShip_def)
  have "ship\<lparr>horizontal := False, position := Some (0, 1)\<rparr> \<in> set (commit shipPieces ship (0, 1))"
    unfolding commit_def using assms(1,4) by (auto simp: image_iff intro!: bexI [of _ ship])
  moreover have "occupied (ship\<lparr>horizontal := False, position := Some (0, 1)\<rparr>)
                   = {(0, 1), (1, 1), (2, 1)}"
    using assms(2) by (simp add: occupied_def cells_three_down)
  ultimately show ?thesis using rot by simp
qed

theorem rotate_three_cell_scenario_witness:
  "cruiser_placed ! 2 \<in> set cruiser_placed \<and> size_cells (cruiser_placed ! 2) = 3 \<and>
   position (cruiser_placed ! 2) = Some (0, 0) \<and> horizontal (cruiser_placed ! 2) \<and>
   position (rotateShip cruiser_placed (cruiser_placed ! 2) ! 2) = Some (0, 1) \<and>
   \<not> horizontal (rotateShip cruiser_placed (cruiser_placed ! 2) ! 2)"
proof -
  have h: "cruiser_placed ! 2 \<in> set cruiser_placed" "size_cells (cruiser_placed ! 2) = 3"
    "position (cruiser_placed ! 2) = Some (0, 0)" "horizontal (cruiser_placed ! 2)"
    "\<forall>s \<in> set cruiser_placed. name s \<noteq> name (cruiser_placed ! 2) \<longrightarrow>
       occupied s \<inter> {(0, 1), (1, 1), (2, 1)} = {}"
    by code_simp+
  have c: "position (commit cruiser_placed (cruiser_placed ! 2) (0, 1) ! 2) = Some (0, 1)"
    "\<not> horizontal (commit cruiser_placed (cruiser_placed ! 2) (0, 1) ! 2)"
    by code_simp+
  show ?thesis using h(1-4) c rotate_three_cell_scenario [OF h] by simp
qed

subsection \<open>Claim C4: the fleet invariant under placeShip and rotateShip\<close>

lemma same_name_same_ship:
  "distinct (map name shipPieces) \<Longrightarrow> s \<in> set shipPieces \<Longrightarrow> t \<in> set shipPieces \<Longrightarrow>
     name s = name t \<Longrightarrow> s = t"
  by (auto simp: distinct_map dest: inj_onD)

lemma disjoint_ships_update:
  assumes "distinct (map name shipPieces)" and "disjoint_ships shipPieces"
    and "\<forall>s \<in> set shipPieces. name s = nm \<longrightarrow> occupied (f s) = C"
    and "\<forall>s \<in> set shipPieces. name s \<noteq> nm \<longrightarrow> occupied s \<inter> C = {}"
  shows "disjoint_ships (map (\<lambda>s. if name s = nm then f s else s) shipPieces)"
  using assms
proof (induction shipPieces)
  case Nil
  show ?case by simp
next
  case (Cons s rest)
  have rest: "disjoint_ships (map (\<lambda>s. if name s = nm then f s else s) rest)"
    using Cons by simp
  show ?case
  proof (cases "name s = nm")
    case True
    have "name s \<notin> name ` set rest" using Cons(2) by simp
    then have others: "\<forall>t \<in> set rest. name t \<noteq> nm" using True by blast
    then have same: "map (\<lambda>s. if name s = nm then f s else s) rest = rest"
      by (simp add: map_idI)
    have "occupied (f s) = C" using Cons(4) True by simp
    moreover have "\<forall>t \<in> set rest. C \<inter> occupied t = {}" using Cons(5) others by auto
    ultimately show ?thesis using True same Cons(3) by simp
  next
    case False
    have "\<forall>t \<in> set rest. occupied s \<inter> occupied (if name t = nm then f t else t) = {}"
    proof
      fix t assume t: "t \<in> set rest"
      show "occupied s \<inter> occupied (if name t = nm then f t else t) = {}"
      proof (cases "name t = nm")
        case True
        then have "occupied (f t) = C" using Cons(4) t by simp
        then show ?thesis using True Cons(5) False by simp
      next
        case False
        then show ?thesis using Cons(3) t by simp
      qed
    qed
    then have "\<forall>t' \<in> set (map (\<lambda>s. if name s = nm then f s else s) rest).
                 occupied s \<inter> occupied t' = {}"
      by (simp only: set_map ball_simps)
    then show ?thesis using False rest by (simp del: set_map)
  qed
qed

lemma invariant_update:
  assumes inv: "fleet_invariant shipPieces" and dist: "distinct (map name shipPieces)"
    and f: "\<forall>s \<in> set shipPieces. name s = nm \<longrightarrow> occupied (f s) = cells row col sz horiz"
    and ok: "canPlaceShipAt shipPieces nm sz row col horiz"
  shows "fleet_invariant (map (\<lambda>s. if name s = nm then f s else s) shipPieces)"
proof -
  let ?C = "cells row col sz horiz"
  have grid: "\<forall>cell \<in> ?C. in_grid cell"
    and other: "\<forall>s \<in> set shipPieces. name s \<noteq> nm \<longrightarrow> occupied s \<inter> ?C = {}"
    using ok unfolding canPlaceShipAt_iff by blast+
  have "disjoint_ships (map (\<lambda>s. if name s = nm then f s else s) shipPieces)"
    using disjoint_ships_update [OF dist _ f other] inv by (simp add: fleet_invariant_def)
  moreover have "\<forall>ship \<in> set (map (\<lambda>s. if name s = nm then f s else s) shipPieces).
                   \<forall>cell \<in> occupied ship. in_grid cell"
  proof
    fix ship assume "ship \<in> set (map (\<lambda>s. if name s = nm then f s else s) shipPieces)"
    then obtain s where s: "s \<in> set shipPieces" "ship = (if name s = nm then f s else s)"
      by auto
    show "\<forall>cell \<in> occupied ship. in_grid cell"
    proof (cases "name s = nm")
      case True
      then have "occupied ship = ?C" using s f by simp
      then show ?thesis using grid by simp
    next
      case False
      then show ?thesis using s inv by (simp add: fleet_invariant_def)
    qed
  qed
  ultimately show ?thesis by (simp add: fleet_invariant_def)
qed

lemma names_kept:
  "map name (snd (placeShip shipPieces nm sz row col horiz)) = map name shipPieces"
  "map name (rotateShip shipPieces ship) = map name shipPieces"
proof -
  show "map name (snd (placeShip shipPieces nm sz row col horiz)) = map name shipPieces"
    by (simp add: placeShip_def comp_def if_distrib cong: if_cong)
  show "map name (rotateShip shipPieces ship) = map name shipPieces"
    by (simp add: rotateShip_def commit_def comp_def if_distrib split: option.splits cong: if_cong)
qed

lemma defaultShips_names_unique: "distinct (map name defaultShips)"
  by (simp add: defaultShips_def)

text \<open>
  Claim C4. A drop calls \<open>placeShip\<close> with the name, size and orientation that the
  dragged element was given from a ship of the fleet, and the Rotate button calls
  \<open>rotateShip\<close> with a ship found in the fleet. The names of the fleet are unique: they
  are unique in \<open>defaultShips\<close> and no operation changes a name. Each such call takes a fleet
  that satisfies the invariant (every placed ship's cells on the board and disjoint from
  the cells of every other ship) to a fleet that satisfies it, and keeps the names
  unique.
\<close>

theorem mutations_preserve_invariant:
  assumes inv: "fleet_invariant shipPieces" and dist: "distinct (map name shipPieces)"
    and mem: "s \<in> set shipPieces"
  shows "fleet_invariant
           (snd (placeShip shipPieces (name s) (size_cells s) row col (horizontal s))) \<and>
         distinct (map name
           (snd (placeShip shipPieces (name s) (size_cells s) row col (horizontal s)))) \<and>
         fleet_invariant (rotateShip shipPieces s) \<and>
         distinct (map name (rotateShip shipPieces s))"
proof (intro conjI)
  have same: "t = s" if "t \<in> set shipPieces" "name t = name s" for t
    using same_name_same_ship [OF dist that(1) mem that(2)] .
  show "fleet_invariant
          (snd (placeShip shipPieces (name s) (size_cells s) row col (horizontal s)))"
  proof (cases "canPlaceShipAt shipPieces (name s) (size_cells s) row col (horizontal s)")
    case False
    then show ?thesis using inv by (simp add: placeShip_def)
  next
    case True
    have "\<forall>t \<in> set shipPieces. name t = name s \<longrightarrow>
            occupied (t\<lparr>position := Some (row, col)\<rparr>)
              = cells row col (size_cells s) (horizontal s)"
      using same by (auto simp: occupied_def)
    from invariant_update [OF inv dist this True] True show ?thesis
      by (simp add: placeShip_def)
  qed
  show "fleet_invariant (rotateShip shipPieces s)"
  proof (cases "position s")
    case None
    then show ?thesis using inv by (simp add: rotateShip_def)
  next
    case (Some p)
    obtain p0 p1 where p: "p = (p0, p1)" by (cases p)
    show ?thesis
    proof (cases "rotateShip_loop shipPieces s (initial_queue s p0 p1)
                    (initial_visited s p0 p1)")
      case None
      then show ?thesis using inv Some p by (simp add: rotateShip_def)
    next
      case (Some origin)
      have ok: "canPlaceShipAt shipPieces (name s) (size_cells s) (fst origin) (snd origin)
                  (\<not> horizontal s)"
        using rotateShip_loop_sound [OF Some] .
      have "\<forall>t \<in> set shipPieces. name t = name s \<longrightarrow>
              occupied (t\<lparr>horizontal := \<not> horizontal t, position := Some origin\<rparr>)
                = cells (fst origin) (snd origin) (size_cells s) (\<not> horizontal s)"
      proof (intro ballI impI)
        fix t assume "t \<in> set shipPieces" "name t = name s"
        then have "t = s" by (rule same)
        then show "occupied (t\<lparr>horizontal := \<not> horizontal t, position := Some origin\<rparr>)
                = cells (fst origin) (snd origin) (size_cells s) (\<not> horizontal s)"
          by (cases origin) (simp add: occupied_def)
      qed
      from invariant_update [OF inv dist this ok] show ?thesis
        using Some \<open>position s = Some p\<close> p by (simp add: rotateShip_def commit_def)
    qed
  qed
  show "distinct (map name
          (snd (placeShip shipPieces (name s) (size_cells s) row col (horizontal s))))"
    using dist by (simp only: names_kept)
  show "distinct (map name (rotateShip shipPieces s))"
    using dist by (simp only: names_kept)
qed

theorem mutations_preserve_invariant_witness:
  "fleet_invariant three_placed \<and> distinct (map name three_placed) \<and>
   three_placed ! 4 \<in> set three_placed \<and>
   fleet_invariant (snd (placeShip three_placed (name (three_placed ! 4))
     (size_cells (three_placed ! 4)) 5 5 (horizontal (three_placed ! 4)))) \<and>
   position (snd (placeShip three_placed (name (three_placed ! 4))
     (size_cells (three_placed ! 4)) 5 5 (horizontal (three_placed ! 4))) ! 4) = Some (5, 5) \<and>
   fleet_invariant (rotateShip three_placed (three_placed ! 4)) \<and>
   position (rotateShip three_placed (three_placed ! 4) ! 4) = Some (3, 0)"
proof -
  have h: "fleet_invariant three_placed" "distinct (map name three_placed)"
    "three_placed ! 4 \<in> set three_placed"
    by code_simp+
  have moved: "position (snd (placeShip three_placed (name (three_placed ! 4))
     (size_cells (three_placed ! 4)) 5 5 (horizontal (three_placed ! 4))) ! 4) = Some (5, 5)"
    "position (rotateShip three_placed (three_placed ! 4) ! 4) = Some (3, 0)"
    "fleet_invariant (rotateShip three_placed (three_placed ! 4))"
    by code_simp+
  show ?thesis
    using h moved mutations_preserve_invariant [OF h, of 5 5]
    by blast
qed

subsection \<open>The breadth-first search of rotateShip\<close>

text \<open>
  The loop of \<open>rotateShip\<close> accepts the first valid state of the traversal order.
\<close>

lemma loop_find:
  "rotateShip_loop shipPieces ship queue visited =
     map_option (candidate ship) (find (valid_state shipPieces ship) (bfs_order queue visited))"
proof (induction shipPieces ship queue visited rule: rotateShip_loop.induct)
  case (1 shipPieces ship visited)
  show ?case by (simp add: rotateShip_loop.simps bfs_order.simps)
next
  case (2 shipPieces ship row col offset queue visited)
  show ?case
  proof (cases "valid_state shipPieces ship (row, col, offset)")
    case True
    then show ?thesis
      by (simp add: rotateShip_loop.simps bfs_order.simps valid_state_def candidate_def)
  next
    case False
    obtain queue' visited' where e: "enqueue (neighbors (row, col, offset)) (queue, visited) = (queue', visited')"
      by (cases "enqueue (neighbors (row, col, offset)) (queue, visited)")
    have nv: "\<not> canPlaceShipAt shipPieces (name ship) (size_cells ship)
               (row - (if horizontal ship then offset else 0))
               (col - (if horizontal ship then 0 else offset)) (\<not> horizontal ship)"
      using False by (simp add: valid_state_def candidate_def)
    have "rotateShip_loop shipPieces ship queue' visited' =
          map_option (candidate ship) (find (valid_state shipPieces ship) (bfs_order queue' visited'))"
      using 2 [OF refl refl nv e [symmetric]] .
    then show ?thesis using False nv e
      by (simp add: rotateShip_loop.simps bfs_order.simps Let_def)
  qed
qed

text \<open>
  What the inner loop does to queue and visited set: it appends some neighbours, all on
  the board, and afterwards every neighbour on the board is in the visited set.
\<close>

lemma enqueue_props:
  "\<exists>new. enqueue ns (q, v) = (q @ new, v \<union> set new) \<and>
         set new \<subseteq> {t \<in> set ns. on_board t} \<and>
         (\<forall>t \<in> set ns. on_board t \<longrightarrow> t \<in> v \<union> set new)"
proof (induction ns arbitrary: q v)
  case Nil
  show ?case by simp
next
  case (Cons n ns)
  obtain r c off where n: "n = (r, c, off)" by (cases n)
  show ?case
  proof (cases "on_board n \<and> n \<notin> v")
    case True
    from Cons [of "q @ [n]" "insert n v"] obtain new where
      new: "enqueue ns (q @ [n], insert n v) = ((q @ [n]) @ new, insert n v \<union> set new)"
        "set new \<subseteq> {t \<in> set ns. on_board t}"
        "\<forall>t \<in> set ns. on_board t \<longrightarrow> t \<in> insert n v \<union> set new"
      by blast
    have "enqueue (n # ns) (q, v) = (q @ (n # new), v \<union> set (n # new))"
      using True new(1) by (simp add: n on_board_def)
    moreover have "set (n # new) \<subseteq> {t \<in> set (n # ns). on_board t}" using new(2) True by auto
    moreover have "\<forall>t \<in> set (n # ns). on_board t \<longrightarrow> t \<in> v \<union> set (n # new)"
      using new(3) by auto
    ultimately show ?thesis by blast
  next
    case False
    from Cons [of q v] obtain new where
      new: "enqueue ns (q, v) = (q @ new, v \<union> set new)"
        "set new \<subseteq> {t \<in> set ns. on_board t}"
        "\<forall>t \<in> set ns. on_board t \<longrightarrow> t \<in> v \<union> set new"
      by blast
    have "enqueue (n # ns) (q, v) = (q @ new, v \<union> set new)"
      using False new(1) by (auto simp: n on_board_def)
    moreover have "set new \<subseteq> {t \<in> set (n # ns). on_board t}" using new(2) by auto
    moreover have "\<forall>t \<in> set (n # ns). on_board t \<longrightarrow> t \<in> v \<union> set new"
      using new(3) False by auto
    ultimately show ?thesis by blast
  qed
qed

lemma layered_level: "layered seeds D A B v k \<Longrightarrow> a \<in> set A \<Longrightarrow> steps seeds k a"
  by (simp add: layered_def)

lemma layered_below: "layered seeds D A B v k \<Longrightarrow> steps seeds m u \<Longrightarrow> m < k \<Longrightarrow> u \<in> D"
  unfolding layered_def by blast

lemma layered_at: "layered seeds D A B v k \<Longrightarrow> steps seeds k u \<Longrightarrow> u \<in> D \<union> set A"
  unfolding layered_def by blast

lemma layered_closed:
  "layered seeds D A B v k \<Longrightarrow> x \<in> D \<Longrightarrow> t \<in> set (neighbors x) \<Longrightarrow> on_board t
     \<Longrightarrow> t \<in> D \<union> set A \<union> set B"
  unfolding layered_def by blast

lemma layered_init:
  assumes "v \<subseteq> set seeds"
  shows "layered seeds {} seeds [] v 0"
proof -
  have "\<And>u. steps seeds 0 u \<Longrightarrow> u \<in> set seeds"
    by (erule steps.cases) simp_all
  then show ?thesis using assms by (auto simp: layered_def intro: steps.seed)
qed

lemma layered_next_level:
  assumes "layered seeds D [] B v k"
  shows "layered seeds D B [] v (Suc k)"
proof -
  have lt: "\<And>u m. steps seeds m u \<Longrightarrow> m < Suc k \<Longrightarrow> u \<in> D"
  proof -
    fix u m assume "steps seeds m u" "m < Suc k"
    then show "u \<in> D"
      using layered_below [OF assms, of m u] layered_at [OF assms, of u]
      by (cases "m = k") auto
  qed
  have eq: "\<And>u. steps seeds (Suc k) u \<Longrightarrow> u \<in> D \<union> set B"
  proof -
    fix u assume "steps seeds (Suc k) u"
    then obtain x where x: "steps seeds k x" "u \<in> set (neighbors x)" "on_board u"
      by (cases rule: steps.cases) auto
    then have "x \<in> D" using layered_at [OF assms, of x] by simp
    then show "u \<in> D \<union> set B" using layered_closed [OF assms _ x(2,3)] by simp
  qed
  have old: "\<forall>a \<in> set B. steps seeds (Suc k) a" "v \<subseteq> D \<union> set B"
    "\<forall>x \<in> D. \<forall>t \<in> set (neighbors x). on_board t \<longrightarrow> t \<in> D \<union> set B"
    using assms unfolding layered_def by simp_all
  show ?thesis
    unfolding layered_def
  proof (intro conjI)
    show "\<forall>a \<in> set B. steps seeds (Suc k) a" by (rule old(1))
    show "\<forall>b \<in> set []. steps seeds (Suc (Suc k)) b" by simp
    show "\<forall>u m. steps seeds m u \<and> m < Suc k \<longrightarrow> u \<in> D" using lt by blast
    show "\<forall>u. steps seeds (Suc k) u \<longrightarrow> u \<in> D \<union> set B" using eq by blast
    show "\<forall>x \<in> D. \<forall>t \<in> set (neighbors x). on_board t \<longrightarrow> t \<in> D \<union> set B \<union> set []"
      using old(3) by simp
    show "v \<subseteq> D \<union> set B \<union> set []" using old(2) by simp
  qed
qed

lemma layered_pop:
  assumes inv: "layered seeds D (s # A) B v k"
    and e: "enqueue (neighbors s) (A @ B, v) = (q', v')"
  shows "\<exists>new. q' = A @ (B @ new) \<and> layered seeds (insert s D) A (B @ new) v' k"
proof -
  from enqueue_props [of "neighbors s" "A @ B" v] e obtain new where
    new: "q' = (A @ B) @ new" "v' = v \<union> set new"
      "set new \<subseteq> {t \<in> set (neighbors s). on_board t}"
      "\<forall>t \<in> set (neighbors s). on_board t \<longrightarrow> t \<in> v \<union> set new"
    by auto
  have s: "steps seeds k s" using inv by (simp add: layered_def)
  have lvl: "\<forall>b \<in> set (B @ new). steps seeds (Suc k) b"
    using inv new(3) s by (auto simp: layered_def intro: steps.step)
  have closed: "\<forall>x \<in> insert s D. \<forall>t \<in> set (neighbors x). on_board t \<longrightarrow>
                  t \<in> insert s D \<union> set A \<union> set (B @ new)"
  proof (intro ballI impI)
    fix x t assume x: "x \<in> insert s D" and t: "t \<in> set (neighbors x)" "on_board t"
    show "t \<in> insert s D \<union> set A \<union> set (B @ new)"
    proof (cases "x = s")
      case True
      then have "t \<in> v \<union> set new" using new(4) t by blast
      then show ?thesis using inv by (auto simp: layered_def)
    next
      case False
      then have "x \<in> D" using x by simp
      then show ?thesis using inv t by (auto simp: layered_def)
    qed
  qed
  have "layered seeds (insert s D) A (B @ new) v' k"
    unfolding layered_def
  proof (intro conjI)
    show "\<forall>a \<in> set A. steps seeds k a" using inv by (simp add: layered_def)
    show "\<forall>b \<in> set (B @ new). steps seeds (Suc k) b" by (rule lvl)
    show "\<forall>u m. steps seeds m u \<and> m < k \<longrightarrow> u \<in> insert s D"
      using inv by (auto simp: layered_def)
    show "\<forall>u. steps seeds k u \<longrightarrow> u \<in> insert s D \<union> set A"
      using inv by (auto simp: layered_def)
    show "\<forall>x \<in> insert s D. \<forall>t \<in> set (neighbors x). on_board t \<longrightarrow>
            t \<in> insert s D \<union> set A \<union> set (B @ new)"
      by (rule closed)
    show "v' \<subseteq> insert s D \<union> set A \<union> set (B @ new)"
      using inv new(2) by (auto simp: layered_def)
  qed
  then show ?thesis using new(1) by auto
qed

lemma layered_empty:
  assumes "layered seeds D [] [] v k" and "steps seeds m u"
  shows "u \<in> D"
  using assms(2)
proof (induction rule: steps.induct)
  case (seed s)
  have "steps seeds 0 s" using seed by (rule steps.seed)
  then show ?case
    using layered_below [OF assms(1), of 0 s] layered_at [OF assms(1), of s]
    by (cases "k = 0") auto
next
  case (step n s t)
  then show ?case using layered_closed [OF assms(1), of s t] by simp
qed

lemma layered_least:
  assumes "layered seeds D A B v k" and "steps seeds m u" and "u \<notin> D"
  shows "k \<le> m"
  using layered_below [OF assms(1,2)] assms(3) by (cases "k \<le> m") auto

lemma bfs_order_layers:
  "q = A @ B \<Longrightarrow> layered seeds D A B v k \<Longrightarrow> steps seeds m u \<Longrightarrow> u \<notin> D \<Longrightarrow>
     \<exists>xs ys. bfs_order q v = xs @ u # ys \<and> u \<notin> set xs \<and> (\<forall>x \<in> set xs. \<exists>j \<le> m. steps seeds j x)"
proof (induction q v arbitrary: A B D k rule: bfs_order.induct)
  case (1 visited)
  then have "layered seeds D [] [] visited k" by simp
  then have "u \<in> D" using 1(3) by (rule layered_empty)
  then show ?case using 1(4) by simp
next
  case (2 row col offset queue visited)
  let ?s = "(row, col, offset)"
  obtain A' B' k' where norm: "?s # queue = (?s # A') @ B'" "layered seeds D (?s # A') B' visited k'"
  proof (cases A)
    case Nil
    then have "layered seeds D B [] visited (Suc k)" using 2(3) by (simp add: layered_next_level)
    moreover have "B = ?s # queue" using 2(2) Nil by simp
    ultimately show ?thesis using that [of queue "[]" "Suc k"] by simp
  next
    case (Cons a A'')
    then have "a = ?s" "queue = A'' @ B" using 2(2) by simp_all
    then show ?thesis using that [of A'' B k] 2(3) Cons by simp
  qed
  have queue: "queue = A' @ B'" using norm(1) by simp
  have km: "k' \<le> m" using layered_least [OF norm(2) 2(4) 2(5)] .
  have lvl: "steps seeds k' ?s" using norm(2) by (simp add: layered_def)
  obtain q' v' where e: "enqueue (neighbors ?s) (queue, visited) = (q', v')"
    by (cases "enqueue (neighbors ?s) (queue, visited)")
  have unfold: "bfs_order (?s # queue) visited = ?s # bfs_order q' v'"
    using e by (simp add: bfs_order.simps)
  show ?case
  proof (cases "u = ?s")
    case True
    have "bfs_order (?s # queue) visited = [] @ u # bfs_order q' v'" using unfold True by simp
    then show ?thesis by (metis empty_iff list.set(1))
  next
    case False
    from layered_pop [OF norm(2)] e queue obtain new where
      new: "q' = A' @ (B' @ new)" "layered seeds (insert ?s D) A' (B' @ new) v' k'"
      by auto
    have "u \<notin> insert ?s D" using False 2(5) by simp
    from 2(1) [OF e [symmetric] new(1) new(2) 2(4) this] obtain xs ys where
      xs: "bfs_order q' v' = xs @ u # ys" "u \<notin> set xs" "\<forall>x \<in> set xs. \<exists>j \<le> m. steps seeds j x"
      by blast
    have "bfs_order (?s # queue) visited = (?s # xs) @ u # ys" using unfold xs(1) by simp
    moreover have "u \<notin> set (?s # xs)" using xs(2) False by simp
    moreover have "\<forall>x \<in> set (?s # xs). \<exists>j \<le> m. steps seeds j x" using xs(3) lvl km by auto
    ultimately show ?thesis by blast
  qed
qed


lemma bfs_order_reachable:
  "\<forall>a \<in> set q. \<exists>j. steps seeds j a \<Longrightarrow> \<forall>x \<in> set (bfs_order q v). \<exists>j. steps seeds j x"
proof (induction q v rule: bfs_order.induct)
  case (1 visited)
  show ?case by (simp add: bfs_order.simps)
next
  case (2 row col offset queue visited)
  let ?s = "(row, col, offset)"
  obtain q' v' where e: "enqueue (neighbors ?s) (queue, visited) = (q', v')"
    by (cases "enqueue (neighbors ?s) (queue, visited)")
  from enqueue_props [of "neighbors ?s" queue visited] e obtain new where
    new: "q' = queue @ new" "set new \<subseteq> {t \<in> set (neighbors ?s). on_board t}"
    by auto
  obtain j where j: "steps seeds j ?s" using 2(2) by auto
  have "\<forall>a \<in> set q'. \<exists>j. steps seeds j a"
  proof
    fix a assume "a \<in> set q'"
    then consider "a \<in> set queue" | "a \<in> set new" using new(1) by auto
    then show "\<exists>j. steps seeds j a"
    proof cases
      case 1
      then show ?thesis using 2(2) by simp
    next
      case 2
      then have "steps seeds (Suc j) a" using new(2) j by (auto intro: steps.step)
      then show ?thesis by blast
    qed
  qed
  from 2(1) [OF e [symmetric] this] have "\<forall>x \<in> set (bfs_order q' v'). \<exists>j. steps seeds j x" .
  moreover have "bfs_order (?s # queue) visited = ?s # bfs_order q' v'"
    using e by (simp add: bfs_order.simps)
  ultimately show ?case using j by auto
qed

lemma bfs_order_complete:
  assumes "v \<subseteq> set seeds" and "steps seeds m u"
  shows "\<exists>xs ys. bfs_order seeds v = xs @ u # ys \<and> u \<notin> set xs \<and>
                 (\<forall>x \<in> set xs. \<exists>j \<le> m. steps seeds j x)"
  using bfs_order_layers [of seeds seeds "[]" seeds "{}" v 0 m u] layered_init [OF assms(1)] assms(2)
  by simp

lemma first_accepted_nearest:
  assumes v: "v \<subseteq> set seeds" and f: "find P (bfs_order seeds v) = Some s"
  shows "P s \<and> (\<exists>n. steps seeds n s \<and> (\<forall>t m. steps seeds m t \<and> P t \<longrightarrow> n \<le> m))"
proof -
  let ?L = "bfs_order seeds v"
  from f obtain i where i: "i < length ?L" "P (?L ! i)" "s = ?L ! i" "\<forall>j < i. \<not> P (?L ! j)"
    unfolding find_Some_iff by blast
  have "s \<in> set ?L" using i(1,3) by simp
  moreover have "\<forall>a \<in> set seeds. \<exists>j. steps seeds j a" by (blast intro: steps.seed)
  ultimately obtain j0 where j0: "steps seeds j0 s" using bfs_order_reachable [of seeds seeds v] by blast
  define n where "n = (LEAST j. steps seeds j s)"
  have n: "steps seeds n s" unfolding n_def using j0 by (rule LeastI)
  have least: "\<And>j. steps seeds j s \<Longrightarrow> n \<le> j" unfolding n_def by (rule Least_le)
  have "\<forall>t m. steps seeds m t \<and> P t \<longrightarrow> n \<le> m"
  proof (intro allI impI)
    fix t m assume t: "steps seeds m t \<and> P t"
    from bfs_order_complete [OF v, of m t] t obtain xs ys where
      xs: "?L = xs @ t # ys" "t \<notin> set xs" "\<forall>x \<in> set xs. \<exists>j \<le> m. steps seeds j x"
      by blast
    have "?L ! length xs = t" using xs(1) by simp
    then have "\<not> length xs < i" using i(4) t by auto
    then consider "i = length xs" | "i < length xs" by linarith
    then show "n \<le> m"
    proof cases
      case 1
      then have "s = t" using i(3) xs(1) by simp
      then show ?thesis using least t by simp
    next
      case 2
      then have "s = xs ! i" using i(3) xs(1) by (simp add: nth_append)
      then have "s \<in> set xs" using 2 by simp
      then obtain j where "j \<le> m" "steps seeds j s" using xs(3) by blast
      then show ?thesis using least [of j] by simp
    qed
  qed
  then show ?thesis using i(2,3) n by blast
qed


lemma neighbors_distance:
  assumes "t \<in> set (neighbors s)"
  shows "snd (snd t) = snd (snd s) \<and> cell_distance s0 t \<le> Suc (cell_distance s0 s)"
proof -
  obtain r c off where s: "s = (r, c, off)" by (cases s)
  from assms have "t = (r - 1, c, off) \<or> t = (r + 1, c, off) \<or> t = (r, c - 1, off) \<or> t = (r, c + 1, off)"
    by (auto simp: s neighbors_def)
  then show ?thesis by (auto simp: s cell_distance_def)
qed

lemma steps_distance:
  "steps seeds n s \<Longrightarrow> \<exists>s0 \<in> set seeds. snd (snd s0) = snd (snd s) \<and> cell_distance s0 s \<le> n"
proof (induction rule: steps.induct)
  case (seed s)
  then show ?case by (auto simp: cell_distance_def)
next
  case (step n s t)
  then obtain s0 where s0: "s0 \<in> set seeds" "snd (snd s0) = snd (snd s)" "cell_distance s0 s \<le> n"
    by blast
  from neighbors_distance [OF step(2), of s0] s0 show ?case
    by (intro bexI [of _ s0]) auto
qed

lemma towards_seed:
  assumes "on_board s0" and "on_board t" and "snd (snd t) = snd (snd s0)"
    and "cell_distance s0 t = Suc d"
  shows "\<exists>x. on_board x \<and> snd (snd x) = snd (snd s0) \<and> cell_distance s0 x = d \<and>
             t \<in> set (neighbors x)"
proof -
  obtain r c off where t: "t = (r, c, off)" by (cases t)
  obtain r0 c0 off0 where s0: "s0 = (r0, c0, off0)" by (cases s0)
  have off: "off = off0" using assms(3) by (simp add: t s0)
  have b: "0 \<le> r" "r < 10" "0 \<le> c" "c < 10" "0 \<le> r0" "r0 < 10" "0 \<le> c0" "c0 < 10"
    using assms(1,2) by (simp_all add: t s0 on_board_def)
  have d: "\<bar>r - r0\<bar> + \<bar>c - c0\<bar> = int d + 1"
    using assms(4) by (simp add: t s0 cell_distance_def)
  consider "r0 < r" | "r < r0" | "r = r0" "c0 < c" | "r = r0" "c < c0"
    using d by linarith
  then show ?thesis
  proof cases
    case 1
    have "cell_distance s0 (r - 1, c, off) = d" using 1 d by (simp add: s0 cell_distance_def)
    then show ?thesis using 1 b off
      by (intro exI [of _ "(r - 1, c, off)"]) (simp add: on_board_def neighbors_def t s0)
  next
    case 2
    have "cell_distance s0 (r + 1, c, off) = d" using 2 d by (simp add: s0 cell_distance_def)
    then show ?thesis using 2 b off
      by (intro exI [of _ "(r + 1, c, off)"]) (simp add: on_board_def neighbors_def t s0)
  next
    case 3
    have "cell_distance s0 (r, c - 1, off) = d" using 3 d by (simp add: s0 cell_distance_def)
    then show ?thesis using 3 b off
      by (intro exI [of _ "(r, c - 1, off)"]) (simp add: on_board_def neighbors_def t s0)
  next
    case 4
    have "cell_distance s0 (r, c + 1, off) = d" using 4 d by (simp add: s0 cell_distance_def)
    then show ?thesis using 4 b off
      by (intro exI [of _ "(r, c + 1, off)"]) (simp add: on_board_def neighbors_def t s0)
  qed
qed

lemma distance_steps:
  assumes "on_board s0" and "s0 \<in> set seeds"
  shows "on_board t \<Longrightarrow> snd (snd t) = snd (snd s0) \<Longrightarrow> cell_distance s0 t = d
           \<Longrightarrow> steps seeds d t"
proof (induction d arbitrary: t)
  case 0
  then have "fst t = fst s0" "fst (snd t) = fst (snd s0)" by (simp_all add: cell_distance_def)
  then have "t = s0" using 0(2) by (simp add: prod_eq_iff)
  then show ?case using assms(2) by (simp add: steps.seed)
next
  case (Suc d)
  from towards_seed [OF assms(1) Suc(2,3,4)] obtain x where
    x: "on_board x" "snd (snd x) = snd (snd s0)" "cell_distance s0 x = d" "t \<in> set (neighbors x)"
    by blast
  from Suc(1) [OF x(1,2,3)] x(4) Suc(2) show ?case by (rule steps.step)
qed

lemma filter_unique_offset:
  "distinct (map (\<lambda>s. snd (snd s)) seeds) \<Longrightarrow> s0 \<in> set seeds \<Longrightarrow> snd (snd s0) = off
     \<Longrightarrow> filter (\<lambda>s. snd (snd s) = off) seeds = [s0]"
proof (induction seeds)
  case Nil
  then show ?case by simp
next
  case (Cons a seeds)
  show ?case
  proof (cases "a = s0")
    case True
    have "snd (snd a) \<notin> (\<lambda>s. snd (snd s)) ` set seeds" using Cons(2) by simp
    then have "\<forall>x \<in> set seeds. snd (snd x) \<noteq> off" using Cons(4) True by blast
    then have "filter (\<lambda>s. snd (snd s) = off) seeds = []" by (simp add: filter_empty_conv)
    then show ?thesis using True Cons(4) by simp
  next
    case False
    then have mem: "s0 \<in> set seeds" using Cons(3) by simp
    have "off \<in> (\<lambda>s. snd (snd s)) ` set seeds" using mem Cons(4) by force
    moreover have "snd (snd a) \<notin> (\<lambda>s. snd (snd s)) ` set seeds" using Cons(2) by simp
    ultimately have "snd (snd a) \<noteq> off" by auto
    then show ?thesis using Cons(1) [OF _ mem Cons(4)] Cons(2) by simp
  qed
qed

lemma seed_distance_eq:
  "distinct (map (\<lambda>s. snd (snd s)) seeds) \<Longrightarrow> s0 \<in> set seeds \<Longrightarrow> snd (snd s0) = snd (snd s)
     \<Longrightarrow> seed_distance seeds s = cell_distance s0 s"
  by (simp add: seed_distance_def filter_unique_offset)

lemma initial_queue_offsets: "distinct (map (\<lambda>s. snd (snd s)) (initial_queue ship p0 p1))"
  by (simp add: initial_queue_def Let_def)

lemma initial_visited_seed: "initial_visited ship p0 p1 \<subseteq> set (initial_queue ship p0 p1)"
  by (simp add: initial_queue_def initial_visited_def Let_def)

lemma nearest_by_distance:
  assumes dist: "distinct (map (\<lambda>s. snd (snd s)) seeds)"
    and board: "\<forall>s0 \<in> set seeds. on_board s0"
    and s: "steps seeds n s" and least: "\<forall>t m. steps seeds m t \<and> P t \<longrightarrow> n \<le> m"
    and t: "on_board t" "snd (snd t) \<in> offsets seeds" "P t"
  shows "seed_distance seeds s \<le> seed_distance seeds t"
proof -
  from t(2) obtain t0 where t0: "t0 \<in> set seeds" "snd (snd t0) = snd (snd t)"
    by (auto simp: offsets_def)
  have "steps seeds (cell_distance t0 t) t"
    using distance_steps [of t0 seeds t] board t0 t(1) by simp
  then have "n \<le> cell_distance t0 t" using least t(3) by blast
  moreover from steps_distance [OF s] obtain s0 where
    s0: "s0 \<in> set seeds" "snd (snd s0) = snd (snd s)" "cell_distance s0 s \<le> n"
    by blast
  ultimately show ?thesis
    using seed_distance_eq [OF dist s0(1,2)] seed_distance_eq [OF dist t0] by simp
qed

subsection \<open>Claim C1: the committed pose is the first valid candidate, hence a nearest one\<close>

text \<open>
  Claim C1. When \<open>rotateShip\<close> commits an origin for a placed ship, every ship of that
  name in the new fleet has this origin as its position and its orientation flipped,
  and every other ship is as it was. The origin is the candidate of the first valid state
  in the breadth-first order that starts from the seed states and expands the neighbours
  of a state up, down, left, right. The seeds are the centre cell at offset
  \<open>(size - 1) div 2\<close> and, for an even size, also the next cell with the next offset. The
  accepted state is reached from a seed in the least number of grid steps among all valid
  states that can be reached; when the seeds lie on the board this number is the
  cell-grid distance to the seed of the same offset, so no valid state on the board is
  nearer to its seed than the accepted one.
\<close>

theorem rotateShip_commits_nearest:
  assumes "position ship = Some (p0, p1)"
    and "rotateShip_loop shipPieces ship (initial_queue ship p0 p1) (initial_visited ship p0 p1)
           = Some origin"
  shows "length (rotateShip shipPieces ship) = length shipPieces \<and>
         (\<forall>i < length shipPieces.
            rotateShip shipPieces ship ! i =
              (if name (shipPieces ! i) = name ship
               then (shipPieces ! i)
                      \<lparr>horizontal := \<not> horizontal (shipPieces ! i), position := Some origin\<rparr>
               else shipPieces ! i)) \<and>
         (ship \<in> set shipPieces \<longrightarrow>
            ship\<lparr>horizontal := \<not> horizontal ship, position := Some origin\<rparr>
              \<in> set (rotateShip shipPieces ship)) \<and>
         (\<forall>row col offset.
            neighbors (row, col, offset) =
              [(row - 1, col, offset), (row + 1, col, offset),
               (row, col - 1, offset), (row, col + 1, offset)]) \<and>
         initial_queue ship p0 p1 =
           (if size_cells ship mod 2 = 0
            then [centre_state ship p0 p1 ((size_cells ship - 1) div 2),
                  centre_state ship p0 p1 ((size_cells ship - 1) div 2 + 1)]
            else [centre_state ship p0 p1 ((size_cells ship - 1) div 2)]) \<and>
         (\<exists>s n. find (valid_state shipPieces ship)
                   (bfs_order (initial_queue ship p0 p1) (initial_visited ship p0 p1)) = Some s \<and>
                 candidate ship s = origin \<and>
                 valid_state shipPieces ship s \<and>
                 steps (initial_queue ship p0 p1) n s \<and>
                 (\<forall>t m. steps (initial_queue ship p0 p1) m t \<and> valid_state shipPieces ship t
                    \<longrightarrow> n \<le> m) \<and>
                 ((\<forall>s0 \<in> set (initial_queue ship p0 p1). on_board s0) \<longrightarrow>
                    (\<forall>t. on_board t \<and> snd (snd t) \<in> offsets (initial_queue ship p0 p1) \<and>
                         valid_state shipPieces ship t \<longrightarrow>
                         seed_distance (initial_queue ship p0 p1) s
                           \<le> seed_distance (initial_queue ship p0 p1) t)))"
proof -
  let ?seeds = "initial_queue ship p0 p1"
  let ?v = "initial_visited ship p0 p1"
  let ?P = "valid_state shipPieces ship"
  have rot: "rotateShip shipPieces ship = commit shipPieces ship origin"
    using assms by (simp add: rotateShip_def)
  have len: "length (rotateShip shipPieces ship) = length shipPieces"
    unfolding rot by (simp add: commit_def)
  have nth: "\<forall>i < length shipPieces.
            rotateShip shipPieces ship ! i =
              (if name (shipPieces ! i) = name ship
               then (shipPieces ! i)
                      \<lparr>horizontal := \<not> horizontal (shipPieces ! i), position := Some origin\<rparr>
               else shipPieces ! i)"
    unfolding rot by (simp add: commit_def)
  have mem: "ship \<in> set shipPieces \<longrightarrow>
            ship\<lparr>horizontal := \<not> horizontal ship, position := Some origin\<rparr>
              \<in> set (rotateShip shipPieces ship)"
    unfolding rot commit_def by (auto simp: image_iff intro!: bexI [of _ ship])
  have nbrs: "\<forall>row col offset.
            neighbors (row, col, offset) =
              [(row - 1, col, offset), (row + 1, col, offset),
               (row, col - 1, offset), (row, col + 1, offset)]"
    by (simp add: neighbors_def)
  have seeds: "?seeds =
           (if size_cells ship mod 2 = 0
            then [centre_state ship p0 p1 ((size_cells ship - 1) div 2),
                  centre_state ship p0 p1 ((size_cells ship - 1) div 2 + 1)]
            else [centre_state ship p0 p1 ((size_cells ship - 1) div 2)])"
    by (simp add: initial_queue_def centre_state_def Let_def)
  from assms(2) obtain s where s: "find ?P (bfs_order ?seeds ?v) = Some s" "candidate ship s = origin"
    unfolding loop_find by auto
  from first_accepted_nearest [OF initial_visited_seed s(1)] obtain n where
    n: "?P s" "steps ?seeds n s" "\<forall>t m. steps ?seeds m t \<and> ?P t \<longrightarrow> n \<le> m"
    by blast
  have near: "(\<forall>s0 \<in> set ?seeds. on_board s0) \<longrightarrow>
          (\<forall>t. on_board t \<and> snd (snd t) \<in> offsets ?seeds \<and> ?P t \<longrightarrow>
               seed_distance ?seeds s \<le> seed_distance ?seeds t)"
    using nearest_by_distance [OF initial_queue_offsets _ n(2,3)] by blast
  have search: "\<exists>s n. find ?P (bfs_order ?seeds ?v) = Some s \<and>
                 candidate ship s = origin \<and> ?P s \<and> steps ?seeds n s \<and>
                 (\<forall>t m. steps ?seeds m t \<and> ?P t \<longrightarrow> n \<le> m) \<and>
                 ((\<forall>s0 \<in> set ?seeds. on_board s0) \<longrightarrow>
                    (\<forall>t. on_board t \<and> snd (snd t) \<in> offsets ?seeds \<and> ?P t \<longrightarrow>
                         seed_distance ?seeds s \<le> seed_distance ?seeds t))"
    using s n near by blast
  from len nth mem nbrs seeds search show ?thesis by (intro conjI)
qed

text \<open>
  Rotating the Destroyer of \<open>three_placed\<close>: the origin \<open>(3,0)\<close> is committed, the
  Destroyer ends vertical on \<open>(3,0)\<close> and the Cruiser stays where it was.
\<close>

theorem rotateShip_commits_nearest_witness:
  "position (three_placed ! 4) = Some (0, 0) \<and>
   rotateShip_loop three_placed (three_placed ! 4) (initial_queue (three_placed ! 4) 0 0)
     (initial_visited (three_placed ! 4) 0 0) = Some (3, 0) \<and>
   position (rotateShip three_placed (three_placed ! 4) ! 4) = Some (3, 0) \<and>
   \<not> horizontal (rotateShip three_placed (three_placed ! 4) ! 4) \<and>
   rotateShip three_placed (three_placed ! 4) ! 2 = three_placed ! 2 \<and>
   initial_queue (three_placed ! 4) 0 0 = [(0, 0, 0), (0, 1, 1)] \<and>
   (\<exists>s n. candidate (three_placed ! 4) s = (3, 0) \<and>
          steps (initial_queue (three_placed ! 4) 0 0) n s \<and>
          (\<forall>t m. steps (initial_queue (three_placed ! 4) 0 0) m t \<and>
                 valid_state three_placed (three_placed ! 4) t \<longrightarrow> n \<le> m))"
proof -
  have h: "position (three_placed ! 4) = Some (0, 0)"
    "rotateShip_loop three_placed (three_placed ! 4) (initial_queue (three_placed ! 4) 0 0)
       (initial_visited (three_placed ! 4) 0 0) = Some (3, 0)"
    by code_simp+
  have q: "initial_queue (three_placed ! 4) 0 0 = [(0, 0, 0), (0, 1, 1)]" by code_simp
  have pose: "position (rotateShip three_placed (three_placed ! 4) ! 4) = Some (3, 0)"
    "\<not> horizontal (rotateShip three_placed (three_placed ! 4) ! 4)"
    by code_simp+
  have facts: "(2::nat) < length three_placed"
    "name (three_placed ! 2) \<noteq> name (three_placed ! 4)"
    by code_simp+
  note inst = rotateShip_commits_nearest [OF h]
  from inst have nth: "\<forall>i < length three_placed.
            rotateShip three_placed (three_placed ! 4) ! i =
              (if name (three_placed ! i) = name (three_placed ! 4)
               then (three_placed ! i)
                      \<lparr>horizontal := \<not> horizontal (three_placed ! i), position := Some (3, 0)\<rparr>
               else three_placed ! i)"
    by blast
  have two: "rotateShip three_placed (three_placed ! 4) ! 2 = three_placed ! 2"
    using nth facts by simp
  from inst have search: "\<exists>s n. candidate (three_placed ! 4) s = (3, 0) \<and>
          steps (initial_queue (three_placed ! 4) 0 0) n s \<and>
          (\<forall>t m. steps (initial_queue (three_placed ! 4) 0 0) m t \<and>
                 valid_state three_placed (three_placed ! 4) t \<longrightarrow> n \<le> m)"
    by blast
  from h q pose two search show ?thesis by (intro conjI)
qed

subsection \<open>Claim C2: termination of the search and repeated states\<close>

text \<open>
  The loop ends on every input: \<open>rotateShip_loop\<close> is defined by recursion along the
  measure \<open>pending\<close>. When a valid state can be reached from a seed, the loop commits, and
  what it commits is accepted by \<open>canPlaceShipAt\<close>.
\<close>

lemma rotateShip_finds_reachable:
  assumes "position ship = Some (p0, p1)"
    and "steps (initial_queue ship p0 p1) m t" and "valid_state shipPieces ship t"
  shows "\<exists>origin. rotateShip shipPieces ship = commit shipPieces ship origin \<and>
           canPlaceShipAt shipPieces (name ship) (size_cells ship) (fst origin) (snd origin)
             (\<not> horizontal ship)"
proof -
  let ?seeds = "initial_queue ship p0 p1"
  let ?v = "initial_visited ship p0 p1"
  from bfs_order_complete [OF initial_visited_seed assms(2)]
  have "t \<in> set (bfs_order ?seeds ?v)" by auto
  then have "find (valid_state shipPieces ship) (bfs_order ?seeds ?v) \<noteq> None"
    unfolding find_None_iff using assms(3) by blast
  then obtain s where "find (valid_state shipPieces ship) (bfs_order ?seeds ?v) = Some s"
    unfolding not_None_eq by blast
  then have o: "rotateShip_loop shipPieces ship ?seeds ?v = Some (candidate ship s)"
    by (simp add: loop_find)
  then have "rotateShip shipPieces ship = commit shipPieces ship (candidate ship s)"
    using assms(1) by (simp add: rotateShip_def)
  then show ?thesis using rotateShip_loop_sound [OF o] by blast
qed

text \<open>
  The states that the loop takes from the queue are the traversal order up to its first
  valid state. No state is taken more than once, except the second seed of an even-sized
  ship, which may be taken twice: it is the one queue entry that is not in \<open>visited\<close>.
\<close>

lemma rotateShip_visits_order:
  "rotateShip_visits shipPieces ship queue visited =
     takeWhile (\<lambda>s. \<not> valid_state shipPieces ship s) (bfs_order queue visited) @
     take 1 (dropWhile (\<lambda>s. \<not> valid_state shipPieces ship s) (bfs_order queue visited))"
proof (induction shipPieces ship queue visited rule: rotateShip_visits.induct)
  case (1 shipPieces ship visited)
  show ?case by (simp add: rotateShip_visits.simps bfs_order.simps)
next
  case (2 shipPieces ship row col offset queue visited)
  obtain queue' visited' where
    e: "enqueue (neighbors (row, col, offset)) (queue, visited) = (queue', visited')"
    by (cases "enqueue (neighbors (row, col, offset)) (queue, visited)")
  show ?case
  proof (cases "valid_state shipPieces ship (row, col, offset)")
    case True
    then show ?thesis
      by (simp add: rotateShip_visits.simps bfs_order.simps valid_state_def candidate_def)
  next
    case False
    then have nv: "\<not> canPlaceShipAt shipPieces (name ship) (size_cells ship)
               (row - (if horizontal ship then offset else 0))
               (col - (if horizontal ship then 0 else offset)) (\<not> horizontal ship)"
      by (simp add: valid_state_def candidate_def)
    from 2 [OF refl refl nv e [symmetric]] False nv e show ?thesis
      by (simp add: rotateShip_visits.simps bfs_order.simps Let_def)
  qed
qed

lemma enqueue_new:
  "\<exists>new. enqueue ns (q, v) = (q @ new, v \<union> set new) \<and> distinct new \<and> set new \<inter> v = {}"
proof (induction ns arbitrary: q v)
  case Nil
  show ?case by simp
next
  case (Cons n ns)
  obtain r c off where n: "n = (r, c, off)" by (cases n)
  show ?case
  proof (cases "r \<ge> 0 \<and> r < 10 \<and> c \<ge> 0 \<and> c < 10 \<and> n \<notin> v")
    case True
    from Cons [of "q @ [n]" "insert n v"] obtain new where
      new: "enqueue ns (q @ [n], insert n v) = ((q @ [n]) @ new, insert n v \<union> set new)"
        "distinct new" "set new \<inter> insert n v = {}"
      by blast
    have "enqueue (n # ns) (q, v) = (q @ (n # new), v \<union> set (n # new))"
      using True new(1) by (simp add: n)
    moreover have "distinct (n # new)" "set (n # new) \<inter> v = {}" using new(2,3) True by auto
    ultimately show ?thesis by blast
  next
    case False
    from Cons [of q v] obtain new where
      new: "enqueue ns (q, v) = (q @ new, v \<union> set new)" "distinct new" "set new \<inter> v = {}"
      by blast
    have "enqueue (n # ns) (q, v) = (q @ new, v \<union> set new)"
      using False new(1) by (auto simp: n)
    then show ?thesis using new(2,3) by blast
  qed
qed

lemma bfs_order_multiplicity:
  "count_list (bfs_order q v) x \<le> count_list q x + (if x \<in> v then 0 else 1)"
proof (induction q v rule: bfs_order.induct)
  case (1 visited)
  show ?case by (simp add: bfs_order.simps)
next
  case (2 row col offset queue visited)
  let ?s = "(row, col, offset)"
  from enqueue_new [of "neighbors ?s" queue visited] obtain new where
    new: "enqueue (neighbors ?s) (queue, visited) = (queue @ new, visited \<union> set new)"
      "distinct new" "set new \<inter> visited = {}"
    by blast
  have unfold: "bfs_order (?s # queue) visited = ?s # bfs_order (queue @ new) (visited \<union> set new)"
    using new(1) by (simp add: bfs_order.simps)
  have ih: "count_list (bfs_order (queue @ new) (visited \<union> set new)) x
            \<le> count_list (queue @ new) x + (if x \<in> visited \<union> set new then 0 else 1)"
    using 2 [OF new(1) [symmetric]] .
  have cnt: "count_list new x = (if x \<in> set new then 1 else 0)"
    using new(2) by (induction new) auto
  show ?case
  proof (cases "x \<in> set new")
    case True
    then have "x \<notin> visited" using new(3) by auto
    then show ?thesis using ih cnt True unfolding unfold by simp
  next
    case False
    then show ?thesis using ih cnt unfolding unfold by simp
  qed
qed

lemma count_list_take: "count_list (take n ys) x \<le> count_list ys x"
proof -
  have "count_list ys x = count_list (take n ys) x + count_list (drop n ys) x"
    by (metis append_take_drop_id count_list_append)
  then show ?thesis by simp
qed

lemma rotateShip_visits_multiplicity:
  "count_list (rotateShip_visits shipPieces ship (initial_queue ship p0 p1)
     (initial_visited ship p0 p1)) x
   \<le> (if size_cells ship mod 2 = 0 \<and>
          x = centre_state ship p0 p1 ((size_cells ship - 1) div 2 + 1) then 2 else 1)"
proof -
  let ?L = "bfs_order (initial_queue ship p0 p1) (initial_visited ship p0 p1)"
  let ?P = "\<lambda>s. \<not> valid_state shipPieces ship s"
  have "count_list (takeWhile ?P ?L @ take 1 (dropWhile ?P ?L)) x
        \<le> count_list (takeWhile ?P ?L) x + count_list (dropWhile ?P ?L) x"
    using count_list_take [of 1 "dropWhile ?P ?L" x] by simp
  also have "\<dots> = count_list ?L x"
    by (metis count_list_append takeWhile_dropWhile_id)
  also have "\<dots> \<le> count_list (initial_queue ship p0 p1) x
                  + (if x \<in> initial_visited ship p0 p1 then 0 else 1)"
    by (rule bfs_order_multiplicity)
  also have "\<dots> \<le> (if size_cells ship mod 2 = 0 \<and>
          x = centre_state ship p0 p1 ((size_cells ship - 1) div 2 + 1) then 2 else 1)"
    by (auto simp: initial_queue_def initial_visited_def centre_state_def Let_def)
  finally show ?thesis unfolding rotateShip_visits_order .
qed

lemma three_placed_well_formed:
  "fleet_invariant three_placed \<and> distinct (map name three_placed)"
  by code_simp

text \<open>
  Claim C2 says that every state \<open>(row, col, offset)\<close> is taken from the queue at most
  once. The second seed of an even-sized ship is pushed without being added to
  \<open>visited\<close>, so a neighbour pushes it again. With the Destroyer on \<open>(0,0)\<close>, the Cruiser
  on \<open>(1,0)\<close> and the Submarine on \<open>(2,0)\<close>, rotating the Destroyer takes the state
  \<open>(0,1,1)\<close> from the queue twice before the origin \<open>(3,0)\<close> is accepted.
\<close>

theorem second_seed_dequeued_twice:
  "position (three_placed ! 4) = Some (0, 0) \<and>
   initial_queue (three_placed ! 4) 0 0 = [(0, 0, 0), (0, 1, 1)] \<and>
   initial_visited (three_placed ! 4) 0 0 = {(0, 0, 0)} \<and>
   rotateShip_visits three_placed (three_placed ! 4) (initial_queue (three_placed ! 4) 0 0)
     (initial_visited (three_placed ! 4) 0 0)
   = [(0, 0, 0), (0, 1, 1), (1, 0, 0), (0, 1, 0), (1, 1, 1), (0, 0, 1), (0, 2, 1), (2, 0, 0),
      (1, 1, 0), (0, 2, 0), (0, 1, 1), (2, 1, 1), (1, 0, 1), (1, 2, 1), (0, 3, 1), (3, 0, 0)] \<and>
   \<not> distinct (rotateShip_visits three_placed (three_placed ! 4)
                 (initial_queue (three_placed ! 4) 0 0) (initial_visited (three_placed ! 4) 0 0))"
  by code_simp


end
